theory Spec2Isabelle
  imports Main "HOL-Library.Sublist"
begin

section \<open>JavaScript values\<close>

text \<open>
  The engine of \<^verbatim>\<open>src/run/src/index.ts\<close> handles values it knows nothing about:
  what drivers return, what sinks emit. They are modelled by a small universe of
  JavaScript values. An object is the list of the properties visible on it, each with
  its value and its \<^emph>\<open>enumerable\<close> and \<^emph>\<open>writable\<close> attributes, and it is
  extensible; a function value is opaque and carries a label only. Numbers are the
  integers.
\<close>

type_synonym name = string

datatype jsval =
    Undefined
  | Null
  | Boolean bool
  | Number int
  | Str string
  | Function string
  | Object "(string \<times> jsval \<times> bool \<times> bool) list"

datatype jstype = TyUndefined | TyObject | TyBoolean | TyNumber | TyString | TyFunction

fun typeof :: "jsval \<Rightarrow> jstype" where
  "typeof Undefined = TyUndefined"
| "typeof Null = TyObject"
| "typeof (Boolean b) = TyBoolean"
| "typeof (Number n) = TyNumber"
| "typeof (Str s) = TyString"
| "typeof (Function f) = TyFunction"
| "typeof (Object ps) = TyObject"

fun truthy :: "jsval \<Rightarrow> bool" where
  "truthy Undefined = False"
| "truthy Null = False"
| "truthy (Boolean b) = b"
| "truthy (Number n) = (n \<noteq> 0)"
| "truthy (Str s) = (s \<noteq> [])"
| "truthy (Function f) = True"
| "truthy (Object ps) = True"

text \<open>
  What a program can throw: the three \<^verbatim>\<open>new Error(...)\<close> of \<^verbatim>\<open>setup\<close> (with
  their messages), the \<^verbatim>\<open>TypeError\<close> of the language itself (a property read on
  \<^verbatim>\<open>undefined\<close> or \<^verbatim>\<open>null\<close>, a call of something that is not a function, a
  write to a read-only property in strict code), and whatever a driver, the adapter or
  \<^verbatim>\<open>main\<close> throws.
\<close>

datatype exn = JsError string | TypeError | Thrown jsval

datatype 'a outcome = Returns 'a | Throws jsval

text \<open>
  The members of \<^verbatim>\<open>Object.prototype\<close>. A plain object (one made by \<^verbatim>\<open>{}\<close>)
  inherits them, so a property read \<^verbatim>\<open>obj[name]\<close> that finds no own property of that
  name still yields a value, a built-in function, for these names.
\<close>

definition object_prototype_names :: "name list" where
  "object_prototype_names =
     [''constructor'', ''__defineGetter__'', ''__defineSetter__'', ''hasOwnProperty'',
      ''__lookupGetter__'', ''__lookupSetter__'', ''isPrototypeOf'',
      ''propertyIsEnumerable'', ''toString'', ''valueOf'', ''__proto__'',
      ''toLocaleString'']"

text \<open>
  \<^verbatim>\<open>v[k]\<close> on a value: a \<^verbatim>\<open>TypeError\<close> on \<^verbatim>\<open>undefined\<close> and \<^verbatim>\<open>null\<close>;
  the property's value when the object shows one; the inherited built-in for a member
  of \<^verbatim>\<open>Object.prototype\<close>; \<^verbatim>\<open>undefined\<close> otherwise. The engine reads only
  \<^verbatim>\<open>stack\<close>, \<^verbatim>\<open>dispose\<close> and \<^verbatim>\<open>shamefullySendNext\<close> this way.
\<close>

fun get_prop :: "jsval \<Rightarrow> string \<Rightarrow> exn + jsval" where
  "get_prop Undefined k = Inl TypeError"
| "get_prop Null k = Inl TypeError"
| "get_prop (Object ps) k =
     (case map_of ps k of
        Some (v, en, wr) \<Rightarrow> Inr v
      | None \<Rightarrow> Inr (if k \<in> set object_prototype_names then Function k else Undefined))"
| "get_prop v k = Inr (if k \<in> set object_prototype_names then Function k else Undefined)"

text \<open>
  \<^verbatim>\<open>o[k] = x\<close> on an object, in strict code (the file is an ES module): an existing
  property keeps its attributes and takes the value, unless it is read-only, which is a
  \<^verbatim>\<open>TypeError\<close>; a new property is created enumerable and writable.
\<close>

fun update_prop :: "string \<Rightarrow> jsval \<Rightarrow> (string \<times> jsval \<times> bool \<times> bool) list
    \<Rightarrow> (string \<times> jsval \<times> bool \<times> bool) list" where
  "update_prop k x [] = []"
| "update_prop k x ((k', v, en, wr) # ps) =
     (if k' = k then (k', x, en, wr) # ps else (k', v, en, wr) # update_prop k x ps)"

fun set_prop :: "jsval \<Rightarrow> string \<Rightarrow> jsval \<Rightarrow> exn + jsval" where
  "set_prop (Object ps) k x =
     (case map_of ps k of
        None \<Rightarrow> Inr (Object (ps @ [(k, x, True, True)]))
      | Some (v, en, wr) \<Rightarrow> if wr then Inr (Object (update_prop k x ps)) else Inl TypeError)"
| "set_prop Undefined k x = Inl TypeError"
| "set_prop Null k x = Inl TypeError"
| "set_prop v k x = Inl TypeError"

section \<open>Objects used as dictionaries\<close>

text \<open>
  \<^verbatim>\<open>Drivers\<close>, \<^verbatim>\<open>Sources\<close>, \<^verbatim>\<open>Sinks\<close> and \<^verbatim>\<open>SinkProxies\<close> are plain objects
  used as dictionaries. Such an object is the list of its own enumerable properties in
  enumeration order, which is the order of \<^verbatim>\<open>Object.keys\<close> and of the own names
  that \<^verbatim>\<open>for ... in\<close> visits. Its keys are distinct, and it inherits from
  \<^verbatim>\<open>Object.prototype\<close>. Two keys change what the loops of the engine do. An own
  \<^verbatim>\<open>hasOwnProperty\<close> shadows the built-in that the guard
  \<^verbatim>\<open>drivers.hasOwnProperty(name)\<close> means to call: for the registry of drivers the
  guard is embedded as it runs (\<open>hasOwnProperty\<close> below). An own \<^verbatim>\<open>__proto__\<close> is
  outside the embedding: assigning \<^verbatim>\<open>sinkProxies['__proto__']\<close> or
  \<^verbatim>\<open>sources['__proto__']\<close> sets a prototype and creates no entry. \<open>plain_obj\<close>
  says that the keys of a dictionary are distinct and that neither of these two is
  among them.
\<close>

type_synonym 'a obj = "(name \<times> 'a) list"

definition keys :: "'a obj \<Rightarrow> name list" where
  "keys obj = map fst obj"

definition plain_obj :: "'a obj \<Rightarrow> bool" where
  "plain_obj obj =
     (distinct (keys obj) \<and> ''hasOwnProperty'' \<notin> set (keys obj) \<and> ''__proto__'' \<notin> set (keys obj))"

text \<open>\<^verbatim>\<open>obj[name] = v\<close>: replaces the value of an own key, appends a new one.\<close>

fun obj_set :: "'a obj \<Rightarrow> name \<Rightarrow> 'a \<Rightarrow> 'a obj" where
  "obj_set [] k v = [(k, v)]"
| "obj_set ((k', v') # kvs) k v =
     (if k' = k then (k', v) # kvs else (k', v') # obj_set kvs k v)"

text \<open>
  \<^verbatim>\<open>obj[name]\<close> on a plain dictionary: the own value, or an inherited member of
  \<^verbatim>\<open>Object.prototype\<close> (a truthy value that is none of the dictionary's entries), or
  \<^verbatim>\<open>undefined\<close>.
\<close>

datatype 'a lookup = Own 'a | Inherited | Missing

definition js_lookup :: "'a obj \<Rightarrow> name \<Rightarrow> 'a lookup" where
  "js_lookup obj k =
     (case map_of obj k of
        Some v \<Rightarrow> Own v
      | None \<Rightarrow> if k \<in> set object_prototype_names then Inherited else Missing)"

text \<open>\<^verbatim>\<open>!!obj[name]\<close> where the own values are objects (streams), hence truthy.\<close>

fun lookup_truthy :: "'a lookup \<Rightarrow> bool" where
  "lookup_truthy (Own v) = True"
| "lookup_truthy Inherited = True"
| "lookup_truthy Missing = False"

section \<open>Effects and results\<close>

text \<open>
  The engine acts on the world by calls into code it does not own. Each such call is an
  effect, and a run of the engine yields the list of its effects in the order they
  happen, then either the exception that stopped it or its result.
  A proxy is a \<^verbatim>\<open>MemoryStream\<close> of the external stream library; the three
  injections \<^verbatim>\<open>_n\<close>, \<^verbatim>\<open>_e\<close>, \<^verbatim>\<open>_c\<close> on \<^verbatim>\<open>sinkProxies[name]\<close> are the
  effects \<open>ProxyNext\<close>, \<open>ProxyError\<close>, \<open>ProxyComplete\<close>: the stream delivers an injected
  value to its subscribers before the call returns. \<open>CallHasOwnProperty name\<close> is the
  call \<^verbatim>\<open>drivers.hasOwnProperty(name)\<close> when it reaches a driver registered under the
  key \<^verbatim>\<open>hasOwnProperty\<close> instead of the built-in.
\<close>

datatype effect =
    CreateProxy nat
  | CallHasOwnProperty name
  | CallDriver name "nat lookup"
  | CallAdapt name
  | CallMain
  | Subscribe name
  | Unsubscribe name
  | ProxyNext name jsval
  | ProxyError name jsval
  | ProxyComplete name
  | ConsoleError jsval
  | ConsoleLog jsval
  | DisposeSource name
  | DevToolStart

type_synonym 'a res = "effect list \<times> (exn + 'a)"

definition ret :: "'a \<Rightarrow> 'a res" where
  "ret x = ([], Inr x)"

definition raise :: "exn \<Rightarrow> 'a res" where
  "raise e = ([], Inl e)"

definition emit :: "effect \<Rightarrow> unit res" where
  "emit e = ([e], Inr ())"

definition lift :: "exn + 'a \<Rightarrow> 'a res" where
  "lift r = ([], r)"

definition andThen :: "'a res \<Rightarrow> ('a \<Rightarrow> 'b res) \<Rightarrow> 'b res" where
  "andThen m f =
     (case m of
        (tr, Inl e) \<Rightarrow> (tr, Inl e)
      | (tr, Inr x) \<Rightarrow> (case f x of (tr', r) \<Rightarrow> (tr @ tr', r)))"

text \<open>\<^verbatim>\<open>xs.forEach(f)\<close>: stops at the first exception.\<close>

fun forEach :: "('a \<Rightarrow> unit res) \<Rightarrow> 'a list \<Rightarrow> unit res" where
  "forEach f [] = ret ()"
| "forEach f (x # xs) = andThen (f x) (\<lambda>_. forEach f xs)"

text \<open>A loop that threads a state through its iterations.\<close>

fun foldRes :: "('a \<Rightarrow> 's \<Rightarrow> 's res) \<Rightarrow> 'a list \<Rightarrow> 's \<Rightarrow> 's res" where
  "foldRes f [] s = ret s"
| "foldRes f (x # xs) s = andThen (f x s) (foldRes f xs)"

section \<open>The console\<close>

text \<open>
  The global \<^verbatim>\<open>console\<close> is \<open>None\<close> when it is falsy; otherwise it says whether it
  has an \<^verbatim>\<open>error\<close> and a \<^verbatim>\<open>log\<close> method.
\<close>

datatype console = Console (has_error: bool) (has_log: bool)

definition console_error_ok :: "console option \<Rightarrow> bool" where
  "console_error_ok c = (case c of None \<Rightarrow> False | Some k \<Rightarrow> has_error k)"

definition console_log_ok :: "console option \<Rightarrow> bool" where
  "console_log_ok c = (case c of None \<Rightarrow> False | Some k \<Rightarrow> has_log k)"

definition logToConsoleError :: "console option \<Rightarrow> jsval \<Rightarrow> unit res" where
  "logToConsoleError c err =
     andThen (lift (get_prop err ''stack'')) (\<lambda>stack.
       let target = (if truthy stack then stack else err) in
       if console_error_ok c then emit (ConsoleError target)
       else if console_log_ok c then emit (ConsoleLog target)
       else ret ())"

section \<open>Proxies, drivers and sources\<close>

text \<open>
  A driver is a function. The engine calls it as
  \<^verbatim>\<open>drivers[name](sinkProxies[name], name)\<close>, with whatever \<^verbatim>\<open>sinkProxies[name]\<close>
  evaluates to and with its name (line 92). When the registry has an own key
  \<^verbatim>\<open>hasOwnProperty\<close>, the guard \<^verbatim>\<open>drivers.hasOwnProperty(name)\<close> of lines 78 and 91
  calls the driver registered under that key, with the name as its only argument.

  A driver returns or throws. What it returns is a value and, with it, a number that
  names the object returned when the value is an object: JavaScript objects are shared,
  not copied, and two drivers that return the same number return one and the same
  object. The value is the state of the object at the time it is returned. Objects
  nested inside a value are part of the value.
\<close>

datatype driver_arg = ProxyArg "nat lookup" | NameArg name

type_synonym driver = "driver_arg \<Rightarrow> jsval \<Rightarrow> (nat \<times> jsval) outcome"

text \<open>
  \<^verbatim>\<open>drivers.hasOwnProperty(name)\<close>, for a name that \<^verbatim>\<open>for ... in\<close> visits: the
  built-in, unless the registry has an own driver of that name, which is then called
  and whose result is taken as a condition.
\<close>

definition hasOwnProperty :: "driver obj \<Rightarrow> name \<Rightarrow> bool res" where
  "hasOwnProperty drivers name =
     (case map_of drivers ''hasOwnProperty'' of
        None \<Rightarrow> ret (name \<in> set (keys drivers))
      | Some g \<Rightarrow>
          andThen (emit (CallHasOwnProperty name)) (\<lambda>_.
            case g (NameArg name) Undefined of
              Throws e \<Rightarrow> raise (Thrown e)
            | Returns (i, v) \<Rightarrow> ret (truthy v)))"

text \<open>
  \<^verbatim>\<open>xs.createWithMemory()\<close> allocates a stream; the allocation counter \<open>h\<close> names
  the streams in the order of their creation.
\<close>

fun makeSinkProxies_loop ::
    "driver obj \<Rightarrow> nat \<Rightarrow> name list \<Rightarrow> nat obj \<Rightarrow> nat obj res" where
  "makeSinkProxies_loop drivers h [] sinkProxies = ret sinkProxies"
| "makeSinkProxies_loop drivers h (name # names) sinkProxies =
     andThen (hasOwnProperty drivers name) (\<lambda>own.
       if own then
         andThen (emit (CreateProxy h)) (\<lambda>_.
           makeSinkProxies_loop drivers (Suc h) names (obj_set sinkProxies name h))
       else makeSinkProxies_loop drivers h names sinkProxies)"

definition makeSinkProxies :: "nat \<Rightarrow> driver obj \<Rightarrow> nat obj res" where
  "makeSinkProxies h drivers = makeSinkProxies_loop drivers h (keys drivers) []"

text \<open>
  Lines 93-95: \<^verbatim>\<open>sources[name]._isCycleSource = name\<close> when the source is truthy and
  of type \<^verbatim>\<open>object\<close>.
\<close>

definition is_object :: "jsval \<Rightarrow> bool" where
  "is_object v = (truthy v \<and> typeof v = TyObject)"

definition tag_source :: "name \<Rightarrow> jsval \<Rightarrow> exn + jsval" where
  "tag_source name v =
     (if truthy v \<and> typeof v = TyObject then set_prop v ''_isCycleSource'' (Str name)
      else Inr v)"

text \<open>
  A write to the object numbered \<open>i\<close> shows under every name of \<^verbatim>\<open>sources\<close> that
  is bound to this object.
\<close>

definition write_shared :: "nat \<Rightarrow> jsval \<Rightarrow> (nat \<times> jsval) obj \<Rightarrow> (nat \<times> jsval) obj" where
  "write_shared i v' sources =
     map (\<lambda>(k, j, u). if j = i \<and> is_object u then (k, j, v') else (k, j, u)) sources"

fun callDrivers_loop ::
    "driver obj \<Rightarrow> nat obj \<Rightarrow> name list \<Rightarrow> (nat \<times> jsval) obj \<Rightarrow> (nat \<times> jsval) obj res" where
  "callDrivers_loop drivers sinkProxies [] sources = ret sources"
| "callDrivers_loop drivers sinkProxies (name # names) sources =
     andThen (hasOwnProperty drivers name) (\<lambda>own.
       if own then
         (case map_of drivers name of
            None \<Rightarrow> raise TypeError
          | Some d \<Rightarrow>
              andThen (emit (CallDriver name (js_lookup sinkProxies name))) (\<lambda>_.
                case d (ProxyArg (js_lookup sinkProxies name)) (Str name) of
                  Throws e \<Rightarrow> raise (Thrown e)
                | Returns (i, v) \<Rightarrow>
                    andThen (lift (tag_source name v)) (\<lambda>v'.
                      callDrivers_loop drivers sinkProxies names
                        (if is_object v then write_shared i v' (obj_set sources name (i, v))
                         else obj_set sources name (i, v)))))
       else callDrivers_loop drivers sinkProxies names sources)"

definition callDrivers :: "driver obj \<Rightarrow> nat obj \<Rightarrow> jsval obj res" where
  "callDrivers drivers sinkProxies =
     andThen (callDrivers_loop drivers sinkProxies (keys drivers) []) (\<lambda>sources.
       ret (map (\<lambda>(k, i, v). (k, v)) sources))"

text \<open>\<^verbatim>\<open>v && typeof v[k] === 'function'\<close>.\<close>

definition has_method :: "jsval \<Rightarrow> string \<Rightarrow> bool" where
  "has_method v k =
     (truthy v \<and> (case get_prop v k of Inr f \<Rightarrow> typeof f = TyFunction | Inl e \<Rightarrow> False))"

text \<open>
  \<^verbatim>\<open>adapt\<close> comes from \<^verbatim>\<open>./adapt\<close>, a file that is not among the sources: it is
  a parameter of the embedding. In the loops over \<^verbatim>\<open>sources\<close> (here and in
  \<^verbatim>\<open>disposeSources\<close>) the guard \<^verbatim>\<open>sources.hasOwnProperty(name)\<close> is the
  built-in: a source stored under the key \<^verbatim>\<open>hasOwnProperty\<close> would be called in its
  place, and what a call of an opaque function value returns is not part of the value
  universe.
\<close>

fun adaptSources_loop :: "(jsval \<Rightarrow> jsval outcome) \<Rightarrow> name list \<Rightarrow> jsval obj \<Rightarrow> jsval obj res" where
  "adaptSources_loop adapt [] sources = ret sources"
| "adaptSources_loop adapt (name # names) sources =
     (case map_of sources name of
        None \<Rightarrow> adaptSources_loop adapt names sources
      | Some v \<Rightarrow>
          if has_method v ''shamefullySendNext'' then
            andThen (emit (CallAdapt name)) (\<lambda>_.
              case adapt v of
                Throws e \<Rightarrow> raise (Thrown e)
              | Returns v' \<Rightarrow> adaptSources_loop adapt names (obj_set sources name v'))
          else adaptSources_loop adapt names sources)"

definition adaptSources :: "(jsval \<Rightarrow> jsval outcome) \<Rightarrow> jsval obj \<Rightarrow> jsval obj res" where
  "adaptSources adapt sources = adaptSources_loop adapt (keys sources) sources"

section \<open>Replication\<close>

text \<open>
  A sink is an observable of the external stream library. What the engine sees of it is
  what it emits to an observer: here, the emissions it makes synchronously while
  \<^verbatim>\<open>subscribe\<close> runs (a cold stream's values, a remembered value replayed), and the
  later ones, which are steps of the environment (\<open>sink_emits\<close> below). An emission
  reaches the observers subscribed at that moment and nobody else.
  What the subscribers of a proxy do with an injected value is outside the engine: the
  embedding records the injection and takes it that an injection, a console call and a
  source's \<^verbatim>\<open>dispose()\<close> return normally. In this section the subscribers are
  passive: no sink emits before an injection returns. The next section lifts this.
\<close>

datatype emission = EmitNext jsval | EmitError jsval | EmitComplete

datatype sink = Sink (on_subscribe: "emission list")

text \<open>
  The two bodies a replicator's \<^verbatim>\<open>next\<close> and \<^verbatim>\<open>error\<close> can have: the closures of
  lines 149-150, which push to the buffers, and those of lines 166-167, which write to
  the proxy. \<^verbatim>\<open>complete\<close> is \<^verbatim>\<open>() => {}\<close> throughout.
\<close>

datatype handler = PushToBuffer | WriteToProxy

record replicator =
  r_next :: handler
  r_error :: handler

text \<open>
  The variables of one call of \<^verbatim>\<open>replicateMany\<close>, which the returned
  \<^verbatim>\<open>disposeReplication\<close> closes over; \<open>active\<close> lists the subscriptions that
  have not been unsubscribed.
\<close>

record rstate =
  sinkNames :: "name list"
  buffers :: "(jsval list \<times> jsval list) obj option"
  replicators :: "replicator obj"
  subscriptions :: "name list"
  active :: "name list"

definition init_replication :: "name list \<Rightarrow> rstate" where
  "init_replication names =
     \<lparr> sinkNames = names,
       buffers = Some (foldl (\<lambda>b name. obj_set b name ([], [])) [] names),
       replicators =
         foldl (\<lambda>r name. obj_set r name \<lparr> r_next = PushToBuffer, r_error = PushToBuffer \<rparr>) [] names,
       subscriptions = [],
       active = [] \<rparr>"

text \<open>\<^verbatim>\<open>buffers[name]._n.push(x)\<close> and \<^verbatim>\<open>buffers[name]._e.push(err)\<close>.\<close>

definition push_next :: "name \<Rightarrow> jsval \<Rightarrow> rstate \<Rightarrow> rstate res" where
  "push_next name x st =
     (case buffers st of
        None \<Rightarrow> raise TypeError
      | Some bs \<Rightarrow>
          (case map_of bs name of
             None \<Rightarrow> raise TypeError
           | Some (ns, es) \<Rightarrow> ret (st\<lparr> buffers := Some (obj_set bs name (ns @ [x], es)) \<rparr>)))"

definition push_error :: "name \<Rightarrow> jsval \<Rightarrow> rstate \<Rightarrow> rstate res" where
  "push_error name err st =
     (case buffers st of
        None \<Rightarrow> raise TypeError
      | Some bs \<Rightarrow>
          (case map_of bs name of
             None \<Rightarrow> raise TypeError
           | Some (ns, es) \<Rightarrow> ret (st\<lparr> buffers := Some (obj_set bs name (ns, es @ [err])) \<rparr>)))"

text \<open>
  \<^verbatim>\<open>const next = (x) => { listener._n(x); }\<close> and
  \<^verbatim>\<open>const error = (err) => { logToConsoleError(err); listener._e(err); }\<close> with
  \<^verbatim>\<open>listener = sinkProxies[name]\<close>. Only a stream has \<^verbatim>\<open>_n\<close>, \<^verbatim>\<open>_e\<close> and
  \<^verbatim>\<open>_c\<close>: on an inherited built-in the call is a \<^verbatim>\<open>TypeError\<close>.
\<close>

definition listener_call :: "nat obj \<Rightarrow> name \<Rightarrow> effect \<Rightarrow> unit res" where
  "listener_call sinkProxies name e =
     (case js_lookup sinkProxies name of
        Own p \<Rightarrow> emit e
      | Inherited \<Rightarrow> raise TypeError
      | Missing \<Rightarrow> raise TypeError)"

definition write_next :: "nat obj \<Rightarrow> name \<Rightarrow> jsval \<Rightarrow> unit res" where
  "write_next sinkProxies name x = listener_call sinkProxies name (ProxyNext name x)"

definition write_error :: "console option \<Rightarrow> nat obj \<Rightarrow> name \<Rightarrow> jsval \<Rightarrow> unit res" where
  "write_error c sinkProxies name err =
     andThen (logToConsoleError c err) (\<lambda>_.
       listener_call sinkProxies name (ProxyError name err))"

text \<open>The sink calls a method of the replicator it was given.\<close>

definition replicator_receive ::
    "console option \<Rightarrow> nat obj \<Rightarrow> name \<Rightarrow> emission \<Rightarrow> rstate \<Rightarrow> rstate res" where
  "replicator_receive c sinkProxies name ev st =
     (case map_of (replicators st) name of
        None \<Rightarrow> ret st
      | Some r \<Rightarrow>
          (case ev of
             EmitNext x \<Rightarrow>
               (case r_next r of
                  PushToBuffer \<Rightarrow> push_next name x st
                | WriteToProxy \<Rightarrow> andThen (write_next sinkProxies name x) (\<lambda>_. ret st))
           | EmitError err \<Rightarrow>
               (case r_error r of
                  PushToBuffer \<Rightarrow> push_error name err st
                | WriteToProxy \<Rightarrow> andThen (write_error c sinkProxies name err) (\<lambda>_. ret st))
           | EmitComplete \<Rightarrow> ret st))"

text \<open>
  A step of the environment: the sink \<open>name\<close> emits. The emission reaches the
  replicator only while its subscription is active.
\<close>

definition sink_emits ::
    "console option \<Rightarrow> nat obj \<Rightarrow> name \<Rightarrow> emission \<Rightarrow> rstate \<Rightarrow> rstate res" where
  "sink_emits c sinkProxies name ev st =
     (if name \<in> set (active st) then replicator_receive c sinkProxies name ev st else ret st)"

text \<open>
  \<^verbatim>\<open>xs.fromObservable(sinks[name]).subscribe(replicators[name])\<close>: the sink starts
  and emits to the replicator; the subscription is then stored.
\<close>

definition subscribe_sink ::
    "console option \<Rightarrow> nat obj \<Rightarrow> sink obj \<Rightarrow> name \<Rightarrow> rstate \<Rightarrow> rstate res" where
  "subscribe_sink c sinkProxies sinks name st =
     (case map_of sinks name of
        None \<Rightarrow> raise TypeError
      | Some s \<Rightarrow>
          andThen (emit (Subscribe name)) (\<lambda>_.
          andThen (foldRes (sink_emits c sinkProxies name) (on_subscribe s)
                     (st\<lparr> active := active st @ [name] \<rparr>)) (\<lambda>st'.
          ret (st'\<lparr> subscriptions := subscriptions st' @ [name] \<rparr>))))"

text \<open>The body of the second \<^verbatim>\<open>sinkNames.forEach\<close> (lines 159-179).\<close>

definition flush_and_swap ::
    "console option \<Rightarrow> nat obj \<Rightarrow> name \<Rightarrow> rstate \<Rightarrow> rstate res" where
  "flush_and_swap c sinkProxies name st =
     (case buffers st of
        None \<Rightarrow> raise TypeError
      | Some bs \<Rightarrow>
          (case map_of bs name of
             None \<Rightarrow> raise TypeError
           | Some (ns, es) \<Rightarrow>
               andThen (forEach (write_next sinkProxies name) ns) (\<lambda>_.
               andThen (forEach (write_error c sinkProxies name) es) (\<lambda>_.
               (case map_of (replicators st) name of
                  None \<Rightarrow> raise TypeError
                | Some r \<Rightarrow>
                    ret (st\<lparr> replicators :=
                      obj_set (replicators st) name
                        \<lparr> r_next = WriteToProxy, r_error = WriteToProxy \<rparr> \<rparr>))))))"

definition replicateMany :: "console option \<Rightarrow> sink obj \<Rightarrow> nat obj \<Rightarrow> rstate res" where
  "replicateMany c sinks sinkProxies =
     (let names = filter (\<lambda>name. lookup_truthy (js_lookup sinkProxies name)) (keys sinks) in
      andThen (foldRes (subscribe_sink c sinkProxies sinks) names (init_replication names)) (\<lambda>st.
      andThen (foldRes (flush_and_swap c sinkProxies) names st) (\<lambda>st'.
      ret (st'\<lparr> buffers := None \<rparr>))))"

definition unsubscribe :: "name \<Rightarrow> rstate \<Rightarrow> rstate res" where
  "unsubscribe name st =
     andThen (emit (Unsubscribe name)) (\<lambda>_. ret (st\<lparr> active := removeAll name (active st) \<rparr>))"

definition disposeReplication :: "nat obj \<Rightarrow> rstate \<Rightarrow> rstate res" where
  "disposeReplication sinkProxies st =
     andThen (foldRes unsubscribe (subscriptions st) st) (\<lambda>st'.
     andThen (forEach (\<lambda>name. listener_call sinkProxies name (ProxyComplete name)) (sinkNames st'))
       (\<lambda>_. ret st'))"

section \<open>Subscribers that answer at once\<close>

text \<open>
  The subscribers of a proxy are the drivers, and the sinks of \<^verbatim>\<open>main\<close> are built
  from what the drivers return. A driver may answer an injected value at once, and a
  sink may then emit before the injection returns, that is inside \<^verbatim>\<open>listener._n(x)\<close>
  or \<^verbatim>\<open>listener._e(err)\<close>. An echo is such an emission: the sink that emits, what
  it emits, and the echoes that follow in turn if that emission is itself injected into
  a proxy. An emission that is buffered, or that reaches no replicator, is not injected
  and has no echo.
\<close>

datatype echo = Echo name emission "echo list"

fun deliver :: "console option \<Rightarrow> nat obj \<Rightarrow> echo \<Rightarrow> rstate \<Rightarrow> rstate res"
  and deliver_all :: "console option \<Rightarrow> nat obj \<Rightarrow> echo list \<Rightarrow> rstate \<Rightarrow> rstate res" where
  "deliver c sinkProxies (Echo name ev echoes) st =
     (if name \<in> set (active st) then
        (case map_of (replicators st) name of
           None \<Rightarrow> ret st
         | Some r \<Rightarrow>
             (case ev of
                EmitNext x \<Rightarrow>
                  (case r_next r of
                     PushToBuffer \<Rightarrow> push_next name x st
                   | WriteToProxy \<Rightarrow>
                       andThen (write_next sinkProxies name x) (\<lambda>_.
                         deliver_all c sinkProxies echoes st))
              | EmitError err \<Rightarrow>
                  (case r_error r of
                     PushToBuffer \<Rightarrow> push_error name err st
                   | WriteToProxy \<Rightarrow>
                       andThen (write_error c sinkProxies name err) (\<lambda>_.
                         deliver_all c sinkProxies echoes st))
              | EmitComplete \<Rightarrow> ret st))
      else ret st)"
| "deliver_all c sinkProxies [] st = ret st"
| "deliver_all c sinkProxies (e # echoes) st =
     andThen (deliver c sinkProxies e st) (deliver_all c sinkProxies echoes)"

text \<open>
  What the subscribers do during the flush: the echoes of the \<open>i\<close>-th buffered value
  of a name, and of its \<open>i\<close>-th buffered error, when the flush injects it.
\<close>

record reactions =
  to_next :: "name \<Rightarrow> nat \<Rightarrow> echo list"
  to_error :: "name \<Rightarrow> nat \<Rightarrow> echo list"

definition quiet :: reactions where
  "quiet = \<lparr> to_next = (\<lambda>name i. []), to_error = (\<lambda>name i. []) \<rparr>"

text \<open>
  \<^verbatim>\<open>xs.forEach(f)\<close> where a call of \<open>f\<close> is an injection: \<^verbatim>\<open>forEach\<close> fixes
  its range when it starts, so it visits the elements the array has at that moment,
  whatever is pushed meanwhile; the echoes of each injection act on the state before
  the next element is visited.
\<close>

fun flush_each ::
    "(jsval \<Rightarrow> unit res) \<Rightarrow> (nat \<Rightarrow> echo list) \<Rightarrow> console option \<Rightarrow> nat obj \<Rightarrow>
     nat \<Rightarrow> jsval list \<Rightarrow> rstate \<Rightarrow> rstate res" where
  "flush_each inject react c sinkProxies i [] st = ret st"
| "flush_each inject react c sinkProxies i (x # xs) st =
     andThen (inject x) (\<lambda>_.
     andThen (deliver_all c sinkProxies (react i) st)
       (flush_each inject react c sinkProxies (Suc i) xs))"

text \<open>
  The body of the second \<^verbatim>\<open>sinkNames.forEach\<close> (lines 159-179) with such
  subscribers: \<^verbatim>\<open>buffers[name]._e\<close> is read when the values have been flushed, and
  the handlers are swapped when the errors have been.
\<close>

definition flush_and_swap_in ::
    "reactions \<Rightarrow> console option \<Rightarrow> nat obj \<Rightarrow> name \<Rightarrow> rstate \<Rightarrow> rstate res" where
  "flush_and_swap_in env c sinkProxies name st =
     (case buffers st of
        None \<Rightarrow> raise TypeError
      | Some bs \<Rightarrow>
          (case map_of bs name of
             None \<Rightarrow> raise TypeError
           | Some (ns, es) \<Rightarrow>
               andThen (flush_each (write_next sinkProxies name) (to_next env name)
                          c sinkProxies 0 ns st) (\<lambda>st1.
                 (case buffers st1 of
                    None \<Rightarrow> raise TypeError
                  | Some bs1 \<Rightarrow>
                      (case map_of bs1 name of
                         None \<Rightarrow> raise TypeError
                       | Some (ns1, es1) \<Rightarrow>
                           andThen (flush_each (write_error c sinkProxies name)
                                      (to_error env name) c sinkProxies 0 es1 st1) (\<lambda>st2.
                             (case map_of (replicators st2) name of
                                None \<Rightarrow> raise TypeError
                              | Some r \<Rightarrow>
                                  ret (st2\<lparr> replicators :=
                                    obj_set (replicators st2) name
                                      \<lparr> r_next = WriteToProxy, r_error = WriteToProxy \<rparr> \<rparr>))))))))"

definition replicateMany_in ::
    "reactions \<Rightarrow> console option \<Rightarrow> sink obj \<Rightarrow> nat obj \<Rightarrow> rstate res" where
  "replicateMany_in env c sinks sinkProxies =
     (let names = filter (\<lambda>name. lookup_truthy (js_lookup sinkProxies name)) (keys sinks) in
      andThen (foldRes (subscribe_sink c sinkProxies sinks) names (init_replication names)) (\<lambda>st.
      andThen (foldRes (flush_and_swap_in env c sinkProxies) names st) (\<lambda>st'.
      ret (st'\<lparr> buffers := None \<rparr>))))"

section \<open>Disposal of the sources\<close>

definition dispose_source :: "name \<Rightarrow> jsval \<Rightarrow> unit res" where
  "dispose_source k v =
     (if truthy v then
        andThen (lift (get_prop v ''dispose'')) (\<lambda>d.
          if truthy d then
            (if typeof d = TyFunction then emit (DisposeSource k) else raise TypeError)
          else ret ())
      else ret ())"

definition disposeSources :: "jsval obj \<Rightarrow> unit res" where
  "disposeSources sources =
     forEach (\<lambda>k. case map_of sources k of None \<Rightarrow> ret () | Some v \<Rightarrow> dispose_source k v)
       (keys sources)"

definition isObjectEmpty :: "'a obj \<Rightarrow> bool" where
  "isObjectEmpty obj = (length (keys obj) = 0)"

section \<open>setup and run\<close>

text \<open>
  \<^verbatim>\<open>setup\<close> is \<open>setup_cycle\<close> here, the name being a keyword of Isabelle.

  The arguments of \<^verbatim>\<open>setup\<close> are typed in TypeScript and unchecked at run time, so
  \<^verbatim>\<open>setup\<close> checks them itself: an argument is any JavaScript value, a function
  carrying \<open>'f\<close> or an object carrying \<open>'o\<close>.
\<close>

datatype ('f, 'o) arg =
    ArgUndefined
  | ArgNull
  | ArgBoolean bool
  | ArgNumber int
  | ArgString string
  | ArgFunction 'f
  | ArgObject 'o

fun typeof_arg :: "('f, 'o) arg \<Rightarrow> jstype" where
  "typeof_arg ArgUndefined = TyUndefined"
| "typeof_arg ArgNull = TyObject"
| "typeof_arg (ArgBoolean b) = TyBoolean"
| "typeof_arg (ArgNumber n) = TyNumber"
| "typeof_arg (ArgString s) = TyString"
| "typeof_arg (ArgFunction f) = TyFunction"
| "typeof_arg (ArgObject ob) = TyObject"

fun is_null :: "('f, 'o) arg \<Rightarrow> bool" where
  "is_null ArgNull = True"
| "is_null a = False"

type_synonym main_fn = "jsval obj \<Rightarrow> sink obj outcome"

text \<open>
  The global \<^verbatim>\<open>window\<close>, when there is one: its \<^verbatim>\<open>Cyclejs\<close> property, absent or
  an object with a \<^verbatim>\<open>sinks\<close> property and others, and whether the devtool hook
  \<^verbatim>\<open>CyclejsDevTool_startGraphSerializer\<close> is installed.
\<close>

record cyclejs =
  cj_sinks :: "sink obj option"
  cj_others :: "(string \<times> jsval) list"

record window =
  Cyclejs :: "cyclejs option"
  devtool :: bool

definition set_window_sinks :: "window option \<Rightarrow> sink obj \<Rightarrow> window option" where
  "set_window_sinks w sinks =
     (case w of
        None \<Rightarrow> None
      | Some win \<Rightarrow>
          (let cj = (case Cyclejs win of
                       None \<Rightarrow> \<lparr> cj_sinks = None, cj_others = [] \<rparr>
                     | Some cj \<Rightarrow> cj)
           in Some (win\<lparr> Cyclejs := Some (cj\<lparr> cj_sinks := Some sinks \<rparr>) \<rparr>)))"

record program =
  sources :: "jsval obj"
  sinks :: "sink obj"
  sinkProxies :: "nat obj"

definition main_error :: string where
  "main_error = ''First argument given to Cycle must be the 'main' function.''"

definition drivers_error :: string where
  "drivers_error =
     ''Second argument given to Cycle must be an object with driver functions as properties.''"

definition empty_error :: string where
  "empty_error =
     ''Second argument given to Cycle must be an object with at least one driver function declared as a property.''"

definition setup_cycle ::
    "(jsval \<Rightarrow> jsval outcome) \<Rightarrow> nat \<Rightarrow> window option \<Rightarrow>
     (main_fn, 'o) arg \<Rightarrow> ('f, driver obj) arg \<Rightarrow> (program \<times> window option) res" where
  "setup_cycle adapt h w main drivers =
     (if typeof_arg main \<noteq> TyFunction then raise (JsError main_error)
      else if typeof_arg drivers \<noteq> TyObject \<or> is_null drivers then raise (JsError drivers_error)
      else
        (case (main, drivers) of
           (ArgFunction mainf, ArgObject ds) \<Rightarrow>
             if isObjectEmpty ds then raise (JsError empty_error)
             else
               andThen (makeSinkProxies h ds) (\<lambda>px.
               andThen (callDrivers ds px) (\<lambda>srcs.
               andThen (adaptSources adapt srcs) (\<lambda>adapted.
               andThen (emit CallMain) (\<lambda>_.
                 case mainf adapted of
                   Throws e \<Rightarrow> raise (Thrown e)
                 | Returns sks \<Rightarrow>
                     ret (\<lparr> sources = adapted, sinks = sks, sinkProxies = px \<rparr>,
                          set_window_sinks w sks)))))
         | _ \<Rightarrow> raise TypeError))"

text \<open>The \<^verbatim>\<open>run\<close> closure of a program, and the \<^verbatim>\<open>dispose\<close> closure it returns.\<close>

definition program_run :: "console option \<Rightarrow> program \<Rightarrow> rstate res" where
  "program_run c prog = replicateMany c (sinks prog) (sinkProxies prog)"

definition dispose :: "program \<Rightarrow> rstate \<Rightarrow> rstate res" where
  "dispose prog st =
     andThen (disposeSources (sources prog)) (\<lambda>_. disposeReplication (sinkProxies prog) st)"

text \<open>The exported \<^verbatim>\<open>run\<close>.\<close>

definition run ::
    "(jsval \<Rightarrow> jsval outcome) \<Rightarrow> console option \<Rightarrow> nat \<Rightarrow> window option \<Rightarrow>
     (main_fn, 'o) arg \<Rightarrow> ('f, driver obj) arg \<Rightarrow> (program \<times> window option \<times> rstate) res" where
  "run adapt c h w main drivers =
     andThen (setup_cycle adapt h w main drivers) (\<lambda>(prog, w').
     andThen (case w' of
                None \<Rightarrow> ret ()
              | Some win \<Rightarrow> if devtool win then emit DevToolStart else ret ()) (\<lambda>_.
     andThen (program_run c prog) (\<lambda>st. ret (prog, w', st))))"

section \<open>Notions used in the statements\<close>

text \<open>
  The values and the errors among a sink's emissions, each in the order of emission.
\<close>

fun next_values :: "emission list \<Rightarrow> jsval list" where
  "next_values [] = []"
| "next_values (EmitNext x # evs) = x # next_values evs"
| "next_values (EmitError err # evs) = next_values evs"
| "next_values (EmitComplete # evs) = next_values evs"

fun error_values :: "emission list \<Rightarrow> jsval list" where
  "error_values [] = []"
| "error_values (EmitNext x # evs) = error_values evs"
| "error_values (EmitError err # evs) = err # error_values evs"
| "error_values (EmitComplete # evs) = error_values evs"

definition emissions_of :: "sink obj \<Rightarrow> name \<Rightarrow> emission list" where
  "emissions_of sks name = (case map_of sks name of Some s \<Rightarrow> on_subscribe s | None \<Rightarrow> [])"

text \<open>
  What \<^verbatim>\<open>logToConsoleError\<close> writes for an error it can read: the target is
  \<^verbatim>\<open>err.stack || err\<close>; it goes to \<^verbatim>\<open>console.error\<close> if there is one, else to
  \<^verbatim>\<open>console.log\<close> if there is one, else nowhere.
\<close>

definition nullish :: "jsval \<Rightarrow> bool" where
  "nullish v = (v = Undefined \<or> v = Null)"

definition log_target :: "jsval \<Rightarrow> jsval" where
  "log_target err =
     (case get_prop err ''stack'' of
        Inr stack \<Rightarrow> if truthy stack then stack else err
      | Inl e \<Rightarrow> err)"

definition diagnostic :: "console option \<Rightarrow> jsval \<Rightarrow> effect list" where
  "diagnostic c err =
     (if console_error_ok c then [ConsoleError (log_target err)]
      else if console_log_ok c then [ConsoleLog (log_target err)]
      else [])"

text \<open>
  The effects of a flush that runs to its end, for one name and for a whole call of
  \<^verbatim>\<open>replicateMany\<close>: the buffered values go to the proxy, then each buffered error
  goes to the console and to the proxy; \<open>sink_names\<close> is the \<^verbatim>\<open>sinkNames\<close> of line
  139. The effects of a \<^verbatim>\<open>dispose\<close> that runs to its end.
\<close>

definition flush_trace :: "console option \<Rightarrow> name \<Rightarrow> jsval list \<Rightarrow> jsval list \<Rightarrow> effect list" where
  "flush_trace c name ns es =
     map (ProxyNext name) ns @ concat (map (\<lambda>err. diagnostic c err @ [ProxyError name err]) es)"

definition flush_effects :: "console option \<Rightarrow> sink obj \<Rightarrow> name \<Rightarrow> effect list" where
  "flush_effects c sks name =
     flush_trace c name (next_values (emissions_of sks name)) (error_values (emissions_of sks name))"

definition sink_names :: "sink obj \<Rightarrow> nat obj \<Rightarrow> name list" where
  "sink_names sks px = filter (\<lambda>name. lookup_truthy (js_lookup px name)) (keys sks)"

definition run_effects :: "console option \<Rightarrow> sink obj \<Rightarrow> nat obj \<Rightarrow> effect list" where
  "run_effects c sks px =
     map Subscribe (sink_names sks px) @ concat (map (flush_effects c sks) (sink_names sks px))"

definition has_teardown :: "jsval obj \<Rightarrow> name \<Rightarrow> bool" where
  "has_teardown srcs k =
     (case map_of srcs k of
        None \<Rightarrow> False
      | Some v \<Rightarrow> truthy v \<and> (case get_prop v ''dispose'' of Inr d \<Rightarrow> truthy d | Inl e \<Rightarrow> False))"

definition dispose_effects :: "program \<Rightarrow> rstate \<Rightarrow> effect list" where
  "dispose_effects prog st =
     map DisposeSource (filter (has_teardown (sources prog)) (keys (sources prog)))
     @ map Unsubscribe (subscriptions st)
     @ map ProxyComplete (sinkNames st)"

text \<open>The two states of a replicator, and the engine before \<^verbatim>\<open>run()\<close> is called.\<close>

definition buffering :: replicator where
  "buffering = \<lparr> r_next = PushToBuffer, r_error = PushToBuffer \<rparr>"

definition forwarding :: replicator where
  "forwarding = \<lparr> r_next = WriteToProxy, r_error = WriteToProxy \<rparr>"

definition not_running :: rstate where
  "not_running =
     \<lparr> sinkNames = [], buffers = None, replicators = [], subscriptions = [], active = [] \<rparr>"

text \<open>
  Projections of a list of effects: the \<^verbatim>\<open>_n\<close> injections into the proxy of a name,
  and all the injections into it.
\<close>

fun is_next :: "name \<Rightarrow> effect \<Rightarrow> bool" where
  "is_next n (ProxyNext m x) = (m = n)"
| "is_next n e = False"

fun on_proxy :: "name \<Rightarrow> effect \<Rightarrow> bool" where
  "on_proxy n (ProxyNext m x) = (m = n)"
| "on_proxy n (ProxyError m err) = (m = n)"
| "on_proxy n (ProxyComplete m) = (m = n)"
| "on_proxy n e = False"

text \<open>
  Notions of the proofs about subscribers that answer at once. A name is waiting when
  its replicator still pushes to the buffers and its buffer of values begins with the
  given values; two states differ in their buffers only; a computation is harmless for
  a waiting name when it injects no value into the proxy of that name, keeps the name
  waiting and changes the buffers only.
\<close>

definition waiting :: "name \<Rightarrow> jsval list \<Rightarrow> rstate \<Rightarrow> bool" where
  "waiting n vs st =
     (\<exists>bs ns es r. buffers st = Some bs \<and> map_of bs n = Some (ns, es) \<and> prefix vs ns
        \<and> map_of (replicators st) n = Some r \<and> r_next r = PushToBuffer)"

definition buffers_only :: "rstate \<Rightarrow> rstate \<Rightarrow> bool" where
  "buffers_only st st' = (\<exists>b. st' = st\<lparr> buffers := b \<rparr>)"

definition harmless :: "name \<Rightarrow> jsval list \<Rightarrow> rstate res \<Rightarrow> rstate \<Rightarrow> bool" where
  "harmless n vs m st =
     (filter (is_next n) (fst m) = []
      \<and> (\<forall>st'. snd m = Inr st' \<longrightarrow> waiting n vs st' \<and> buffers_only st st'))"

text \<open>Attributes of a property of an object.\<close>

definition has_prop :: "jsval \<Rightarrow> string \<Rightarrow> bool" where
  "has_prop v k = (case v of Object ps \<Rightarrow> map_of ps k \<noteq> None | _ \<Rightarrow> False)"

definition prop_enumerable :: "jsval \<Rightarrow> string \<Rightarrow> bool" where
  "prop_enumerable v k =
     (case v of
        Object ps \<Rightarrow> (case map_of ps k of Some (x, en, wr) \<Rightarrow> en | None \<Rightarrow> False)
      | _ \<Rightarrow> False)"

definition prop_writable :: "jsval \<Rightarrow> string \<Rightarrow> bool" where
  "prop_writable v k =
     (case v of
        Object ps \<Rightarrow> (case map_of ps k of Some (x, en, wr) \<Rightarrow> wr | None \<Rightarrow> False)
      | _ \<Rightarrow> False)"

section \<open>Example programs\<close>

text \<open>
  Two drivers \<^verbatim>\<open>A\<close> and \<^verbatim>\<open>B\<close>, and a \<^verbatim>\<open>main\<close> that returns a sink for
  \<^verbatim>\<open>A\<close> only; the sink is hot: it emits nothing when it is subscribed.
\<close>

definition early_drivers :: "driver obj" where
  "early_drivers =
     [(''A'', \<lambda>p n. Returns (0, Undefined)), (''B'', \<lambda>p n. Returns (1, Undefined))]"

definition early_sinks :: "sink obj" where
  "early_sinks = [(''A'', Sink [])]"

definition early_proxies :: "nat obj" where
  "early_proxies = [(''A'', 0), (''B'', 1)]"

definition early_program :: program where
  "early_program =
     \<lparr> sources = [(''A'', Undefined), (''B'', Undefined)], sinks = early_sinks,
       sinkProxies = early_proxies \<rparr>"

definition early_state :: rstate where
  "early_state =
     \<lparr> sinkNames = [''A''], buffers = None, replicators = [(''A'', forwarding)],
       subscriptions = [''A''], active = [''A''] \<rparr>"

text \<open>
  A sink for \<^verbatim>\<open>A\<close> that emits a value, an error, a value and its completion as soon
  as it is subscribed, beside a sink \<^verbatim>\<open>C\<close> that has no driver; a sink that fails at
  once.
\<close>

definition interleaved_sinks :: "sink obj" where
  "interleaved_sinks =
     [(''A'', Sink [EmitNext (Number 1), EmitError (Str ''boom''), EmitNext (Number 2),
                    EmitComplete]),
      (''C'', Sink [EmitNext (Number 3)])]"

definition failing_sinks :: "sink obj" where
  "failing_sinks = [(''A'', Sink [EmitError (Str ''boom'')])]"

text \<open>
  A sink that replays \<^verbatim>\<open>0\<close> to whoever subscribes, and a driver that answers the
  injection of that value at once, so that the sink emits \<^verbatim>\<open>1\<close> before the
  injection returns. Two sinks that replay \<^verbatim>\<open>1\<close> and \<^verbatim>\<open>2\<close>, and a driver
  \<^verbatim>\<open>B\<close> that answers the injection of \<^verbatim>\<open>2\<close> at once, so that the sink
  \<^verbatim>\<open>A\<close> emits \<^verbatim>\<open>9\<close> before that injection returns.
\<close>

definition replaying_sinks :: "sink obj" where
  "replaying_sinks = [(''A'', Sink [EmitNext (Number 0)])]"

definition echoing :: reactions where
  "echoing =
     \<lparr> to_next = (\<lambda>name i. if name = ''A'' \<and> i = 0
                               then [Echo ''A'' (EmitNext (Number 1)) []] else []),
       to_error = (\<lambda>name i. []) \<rparr>"

definition crossing_sinks :: "sink obj" where
  "crossing_sinks =
     [(''A'', Sink [EmitNext (Number 1)]), (''B'', Sink [EmitNext (Number 2)])]"

definition crossing :: reactions where
  "crossing =
     \<lparr> to_next = (\<lambda>name i. if name = ''B'' \<and> i = 0
                               then [Echo ''A'' (EmitNext (Number 9)) []] else []),
       to_error = (\<lambda>name i. []) \<rparr>"



text \<open>A \<^verbatim>\<open>main\<close> whose only sink is named \<^verbatim>\<open>constructor\<close>.\<close>

definition phantom_drivers :: "driver obj" where
  "phantom_drivers = [(''A'', \<lambda>p n. Returns (0, Undefined))]"

definition phantom_sinks :: "sink obj" where
  "phantom_sinks = [(''constructor'', Sink [EmitNext (Number 1)])]"

definition phantom_program :: program where
  "phantom_program =
     \<lparr> sources = [(''A'', Undefined)], sinks = phantom_sinks, sinkProxies = [(''A'', 0)] \<rparr>"

text \<open>
  Drivers that return an object, a string, a stream, nothing; two drivers that return
  one and the same object, which carries the tag of the first when the second returns
  it; a registry whose only driver is named \<^verbatim>\<open>hasOwnProperty\<close>; a window.
\<close>

definition tag_drivers :: "driver obj" where
  "tag_drivers =
     [(''A'', \<lambda>p n. Returns (0, Object [])), (''B'', \<lambda>p n. Returns (1, Str ''src''))]"

definition tag_proxies :: "nat obj" where
  "tag_proxies = [(''A'', 0), (''B'', 1)]"

definition shared_drivers :: "driver obj" where
  "shared_drivers =
     [(''A'', \<lambda>p n. Returns (0, Object [])),
      (''B'', \<lambda>p n. Returns (0, Object [(''_isCycleSource'', Str ''A'', True, True)]))]"

definition shadow_drivers :: "driver obj" where
  "shadow_drivers = [(''hasOwnProperty'', \<lambda>p n. Returns (0, Undefined))]"

definition cardinality_drivers :: "driver obj" where
  "cardinality_drivers =
     [(''DOM'', \<lambda>p n. Returns (0, Object [(''shamefullySendNext'', Function ''f'', True, True)])),
      (''HTTP'', \<lambda>p n. Returns (1, Undefined))]"

definition window_example :: window where
  "window_example =
     \<lparr> Cyclejs = Some \<lparr> cj_sinks = None, cj_others = [(''version'', Number 1)] \<rparr>,
       devtool = False \<rparr>"

section \<open>Auxiliary facts\<close>

subsection \<open>Laws of results\<close>

lemma andThen_ret [simp]: "andThen (ret x) f = f x"
  by (simp add: andThen_def ret_def split: prod.splits)

lemma andThen_raise [simp]: "andThen (raise e) f = raise e"
  by (simp add: andThen_def raise_def)

lemma andThen_lift_Inr [simp]: "andThen (lift (Inr x)) f = f x"
  by (simp add: andThen_def lift_def split: prod.splits)

lemma andThen_lift_Inl [simp]: "andThen (lift (Inl e)) f = raise e"
  by (simp add: andThen_def lift_def raise_def)

lemma andThen_emit: "andThen (emit e) f = (e # fst (f ()), snd (f ()))"
  by (simp add: andThen_def emit_def split: prod.splits)

lemma andThen_Inr_iff:
  "andThen m f = (tr, Inr y) \<longleftrightarrow>
     (\<exists>tr1 x tr2. m = (tr1, Inr x) \<and> f x = (tr2, Inr y) \<and> tr = tr1 @ tr2)"
  by (cases m) (auto simp: andThen_def split: sum.splits prod.splits)

lemma andThen_assoc:
  "andThen (andThen m f) g = andThen m (\<lambda>x. andThen (f x) g)"
  by (cases m) (auto simp: andThen_def split: sum.splits prod.splits)


subsection \<open>Validation of the arguments\<close>

lemma hasOwnProperty_builtin:
  "map_of ds ''hasOwnProperty'' = None \<Longrightarrow> name \<in> set (keys ds) \<Longrightarrow>
   hasOwnProperty ds name = ret True"
  by (simp add: hasOwnProperty_def)





subsection \<open>Inversion of results\<close>

lemma emit_Inr_iff: "emit e = (tr, Inr u) \<longleftrightarrow> tr = [e]"
  by (auto simp: emit_def)

lemma ret_eq_iff: "ret x = (tr, r) \<longleftrightarrow> tr = [] \<and> r = Inr x"
  by (auto simp: ret_def)

lemma raise_eq_iff: "raise e = (tr, r) \<longleftrightarrow> tr = [] \<and> r = Inl e"
  by (auto simp: raise_def)

lemma lift_eq_iff: "lift x = (tr, r) \<longleftrightarrow> tr = [] \<and> x = r"
  by (auto simp: lift_def)

subsection \<open>What a successful setup has done\<close>

lemma setup_returns:
  assumes "setup_cycle adapt h w main drivers = (tr, Inr (prog, w'))"
  shows "\<exists>mainf ds tr1 px tr2 srcs tr3 adapted sks.
           main = ArgFunction mainf \<and> drivers = ArgObject ds \<and> keys ds \<noteq> []
         \<and> makeSinkProxies h ds = (tr1, Inr px)
         \<and> callDrivers ds px = (tr2, Inr srcs)
         \<and> adaptSources adapt srcs = (tr3, Inr adapted)
         \<and> mainf adapted = Returns sks
         \<and> prog = \<lparr> sources = adapted, sinks = sks, sinkProxies = px \<rparr>
         \<and> w' = set_window_sinks w sks
         \<and> tr = tr1 @ tr2 @ tr3 @ [CallMain]"
proof -
  from assms obtain mainf where m: "main = ArgFunction mainf"
    by (cases main) (simp_all add: setup_cycle_def raise_eq_iff)
  from assms m obtain ds where d: "drivers = ArgObject ds"
    by (cases drivers) (simp_all add: setup_cycle_def raise_eq_iff)
  from assms m d have ne: "keys ds \<noteq> []"
    by (auto simp: setup_cycle_def raise_eq_iff isObjectEmpty_def split: if_splits)
  from assms m d ne obtain tr1 px tr2 srcs tr3 adapted tr4 where
    steps: "makeSinkProxies h ds = (tr1, Inr px)" "callDrivers ds px = (tr2, Inr srcs)"
      "adaptSources adapt srcs = (tr3, Inr adapted)"
      "(case mainf adapted of
          Throws e \<Rightarrow> raise (Thrown e)
        | Returns sks \<Rightarrow>
            ret (\<lparr> sources = adapted, sinks = sks, sinkProxies = px \<rparr>,
                 set_window_sinks w sks)) = (tr4, Inr (prog, w'))"
      "tr = tr1 @ tr2 @ tr3 @ CallMain # tr4"
    by (auto simp: setup_cycle_def isObjectEmpty_def andThen_Inr_iff emit_Inr_iff)
  from steps(4) obtain sks where
    "mainf adapted = Returns sks" "tr4 = []"
    "prog = \<lparr> sources = adapted, sinks = sks, sinkProxies = px \<rparr>"
    "w' = set_window_sinks w sks"
    by (cases "mainf adapted") (auto simp: ret_eq_iff raise_eq_iff)
  with steps m d ne show ?thesis by auto
qed

subsection \<open>Dictionaries\<close>

lemma obj_set_fresh: "k \<notin> set (keys m) \<Longrightarrow> obj_set m k v = m @ [(k, v)]"
  by (induction m) (auto simp: keys_def)

lemma keys_obj_set:
  "keys (obj_set m k v) = (if k \<in> set (keys m) then keys m else keys m @ [k])"
  by (induction m) (force simp: keys_def)+

lemma keys_obj_set_mem: "k \<in> set (keys m) \<Longrightarrow> keys (obj_set m k v) = keys m"
  by (simp add: keys_obj_set)

lemma map_of_obj_set: "map_of (obj_set m k v) = (map_of m)(k \<mapsto> v)"
  by (induction m) (auto simp: fun_eq_iff)

lemma map_of_keys: "map_of m k = Some v \<Longrightarrow> k \<in> set (keys m)"
  by (auto simp: keys_def dest: map_of_SomeD intro: rev_image_eqI)

lemma keys_append [simp]: "keys (a @ b) = keys a @ keys b"
  by (simp add: keys_def)

lemma keys_Nil [simp]: "keys [] = []"
  by (simp add: keys_def)

lemma map_of_no_key: "k \<notin> set (keys m) \<Longrightarrow> map_of m k = None"
  by (simp add: keys_def map_of_eq_None_iff)

lemma plain_obj_builtin: "plain_obj m \<Longrightarrow> map_of m ''hasOwnProperty'' = None"
  by (simp add: plain_obj_def map_of_no_key)

subsection \<open>Creation of the proxies\<close>

lemma makeSinkProxies_loop_eq:
  "map_of ds ''hasOwnProperty'' = None \<Longrightarrow> set names \<subseteq> set (keys ds) \<Longrightarrow>
   distinct (keys acc @ names) \<Longrightarrow>
   makeSinkProxies_loop ds h names acc =
     (map CreateProxy [h ..< h + length names], Inr (acc @ zip names [h ..< h + length names]))"
proof (induction names arbitrary: h acc)
  case Nil
  then show ?case by (simp add: ret_def)
next
  case (Cons name names)
  from Cons.prems have fresh: "name \<notin> set (keys acc)" by auto
  from Cons.prems have g: "hasOwnProperty ds name = ret True"
    by (simp add: hasOwnProperty_builtin)
  from Cons.prems have "distinct (keys (acc @ [(name, h)]) @ names)"
    by (auto simp: keys_def)
  moreover have "[h ..< h + length (name # names)] = h # [Suc h ..< Suc h + length names]"
    by (simp add: upt_conv_Cons del: upt_Suc)
  moreover from Cons.prems have "set names \<subseteq> set (keys ds)" by simp
  ultimately show ?case
    using Cons.IH [of "acc @ [(name, h)]" "Suc h"] fresh g Cons.prems(1)
    by (simp add: andThen_emit obj_set_fresh del: upt_Suc)
qed

lemma makeSinkProxies_eq:
  "map_of ds ''hasOwnProperty'' = None \<Longrightarrow> distinct (keys ds) \<Longrightarrow>
   makeSinkProxies h ds =
     (map CreateProxy [h ..< h + length ds], Inr (zip (keys ds) [h ..< h + length ds]))"
  using makeSinkProxies_loop_eq [of ds "keys ds" "[]" h]
  by (simp add: makeSinkProxies_def keys_def)

subsection \<open>Invocation of the drivers\<close>

lemma keys_write_shared [simp]: "keys (write_shared i v m) = keys m"
  by (induction m) (auto simp: write_shared_def keys_def)

lemma map_of_write_shared:
  "map_of (write_shared i v m) k =
     map_option (\<lambda>(j, u). if j = i \<and> is_object u then (j, v) else (j, u)) (map_of m k)"
  by (induction m) (auto simp: write_shared_def)

lemma callDrivers_loop_step:
  assumes "callDrivers_loop ds px (name # names) acc = (tr, Inr out)"
    and "map_of ds ''hasOwnProperty'' = None" and "name \<in> set (keys ds)"
  shows "\<exists>d i v v' tr'. map_of ds name = Some d
     \<and> d (ProxyArg (js_lookup px name)) (Str name) = Returns (i, v)
     \<and> tag_source name v = Inr v'
     \<and> callDrivers_loop ds px names
          (if is_object v then write_shared i v' (obj_set acc name (i, v))
           else obj_set acc name (i, v)) = (tr', Inr out)
     \<and> tr = CallDriver name (js_lookup px name) # tr'"
proof -
  from assms(2,3) have g: "hasOwnProperty ds name = ret True"
    by (rule hasOwnProperty_builtin)
  from assms(1) show ?thesis
    unfolding callDrivers_loop.simps g andThen_ret
    by (auto simp: andThen_Inr_iff emit_Inr_iff raise_eq_iff lift_eq_iff
          split: option.splits outcome.splits prod.splits)
qed

lemma callDrivers_loop_keys:
  "callDrivers_loop ds px names acc = (tr, Inr out) \<Longrightarrow>
   map_of ds ''hasOwnProperty'' = None \<Longrightarrow> set names \<subseteq> set (keys ds) \<Longrightarrow>
   distinct (keys acc @ names) \<Longrightarrow> keys out = keys acc @ names"
proof (induction names arbitrary: acc tr)
  case Nil
  then show ?case by (simp add: ret_eq_iff)
next
  case (Cons name names)
  from Cons.prems(4) have fresh: "name \<notin> set (keys acc)" by auto
  from Cons.prems(3) have mem: "name \<in> set (keys ds)" "set names \<subseteq> set (keys ds)" by auto
  from callDrivers_loop_step [OF Cons.prems(1,2) mem(1)] obtain i v v' tr' where
    step: "callDrivers_loop ds px names
          (if is_object v then write_shared i v' (obj_set acc name (i, v))
           else obj_set acc name (i, v)) = (tr', Inr out)"
    by blast
  let ?acc = "if is_object v then write_shared i v' (obj_set acc name (i, v))
           else obj_set acc name (i, v)"
  from fresh have k: "keys ?acc = keys acc @ [name]" by (simp add: keys_obj_set)
  with Cons.prems(4) have "distinct (keys ?acc @ names)" by auto
  from Cons.IH [OF step Cons.prems(2) mem(2) this] k show ?case by simp
qed

lemma callDrivers_loop_keeps:
  "callDrivers_loop ds px names acc = (tr, Inr out) \<Longrightarrow>
   map_of ds ''hasOwnProperty'' = None \<Longrightarrow> set names \<subseteq> set (keys ds) \<Longrightarrow>
   map_of acc name = Some (i, x) \<Longrightarrow> name \<notin> set names \<Longrightarrow>
   (\<forall>m d j u. m \<in> set names \<and> map_of ds m = Some d
      \<and> d (ProxyArg (js_lookup px m)) (Str m) = Returns (j, u) \<and> is_object u \<longrightarrow> j \<noteq> i) \<Longrightarrow>
   map_of out name = Some (i, x)"
proof (induction names arbitrary: acc tr)
  case Nil
  then show ?case by (simp add: ret_eq_iff)
next
  case (Cons m names)
  from Cons.prems(3) have mem: "m \<in> set (keys ds)" "set names \<subseteq> set (keys ds)" by auto
  from callDrivers_loop_step [OF Cons.prems(1,2) mem(1)] obtain d j u u' tr' where
    step: "map_of ds m = Some d" "d (ProxyArg (js_lookup px m)) (Str m) = Returns (j, u)"
      "callDrivers_loop ds px names
          (if is_object u then write_shared j u' (obj_set acc m (j, u))
           else obj_set acc m (j, u)) = (tr', Inr out)"
    by blast
  let ?acc = "if is_object u then write_shared j u' (obj_set acc m (j, u))
           else obj_set acc m (j, u)"
  from Cons.prems(5) have ne: "m \<noteq> name" by auto
  from step(1,2) Cons.prems(6) have "is_object u \<Longrightarrow> j \<noteq> i" by auto
  with ne Cons.prems(4) have e: "map_of ?acc name = Some (i, x)"
    by (auto simp: map_of_write_shared map_of_obj_set)
  from Cons.prems(5) have nin: "name \<notin> set names" by simp
  from Cons.prems(6) have later: "\<forall>m d j u. m \<in> set names \<and> map_of ds m = Some d
      \<and> d (ProxyArg (js_lookup px m)) (Str m) = Returns (j, u) \<and> is_object u \<longrightarrow> j \<noteq> i"
    by auto
  from Cons.IH [OF step(3) Cons.prems(2) mem(2) e nin later] show ?case .
qed

lemma callDrivers_loop_entry:
  "callDrivers_loop ds px names acc = (tr, Inr out) \<Longrightarrow>
   map_of ds ''hasOwnProperty'' = None \<Longrightarrow> set names \<subseteq> set (keys ds) \<Longrightarrow>
   distinct names \<Longrightarrow> name \<in> set names \<Longrightarrow>
   map_of ds name = Some d \<Longrightarrow> d (ProxyArg (js_lookup px name)) (Str name) = Returns (i, v) \<Longrightarrow>
   (\<forall>m d j u. m \<in> set names \<and> m \<noteq> name \<and> map_of ds m = Some d
      \<and> d (ProxyArg (js_lookup px m)) (Str m) = Returns (j, u) \<and> is_object u \<longrightarrow> j \<noteq> i) \<Longrightarrow>
   \<exists>v'. tag_source name v = Inr v' \<and> map_of out name = Some (i, v')"
proof (induction names arbitrary: acc tr)
  case Nil
  then show ?case by simp
next
  case (Cons n names)
  from Cons.prems(3) have mem: "n \<in> set (keys ds)" "set names \<subseteq> set (keys ds)" by auto
  from callDrivers_loop_step [OF Cons.prems(1,2) mem(1)] obtain d' j u u' tr' where
    step: "map_of ds n = Some d'" "d' (ProxyArg (js_lookup px n)) (Str n) = Returns (j, u)"
      "tag_source n u = Inr u'"
      "callDrivers_loop ds px names
          (if is_object u then write_shared j u' (obj_set acc n (j, u))
           else obj_set acc n (j, u)) = (tr', Inr out)"
    by blast
  let ?acc = "if is_object u then write_shared j u' (obj_set acc n (j, u))
           else obj_set acc n (j, u)"
  show ?case
  proof (cases "name = n")
    case True
    with step(1,2) Cons.prems(6,7) have same: "j = i" "u = v" by simp_all
    from Cons.prems(4) True have nin: "name \<notin> set names" by simp
    from step(3) have "\<not> is_object u \<Longrightarrow> u' = u"
      by (auto simp: tag_source_def is_object_def split: if_splits)
    with True same have e: "map_of ?acc name = Some (i, u')"
      by (auto simp: map_of_write_shared map_of_obj_set)
    from Cons.prems(8) nin have later: "\<forall>m d j u. m \<in> set names \<and> map_of ds m = Some d
      \<and> d (ProxyArg (js_lookup px m)) (Str m) = Returns (j, u) \<and> is_object u \<longrightarrow> j \<noteq> i"
      by auto
    from callDrivers_loop_keeps [OF step(4) Cons.prems(2) mem(2) e nin later]
    have "map_of out name = Some (i, u')" .
    with step(3) True same show ?thesis by simp
  next
    case False
    with Cons.prems have a: "name \<in> set names" "distinct names" by auto
    from Cons.prems(8) have later: "\<forall>m d j u. m \<in> set names \<and> m \<noteq> name \<and> map_of ds m = Some d
      \<and> d (ProxyArg (js_lookup px m)) (Str m) = Returns (j, u) \<and> is_object u \<longrightarrow> j \<noteq> i"
      by auto
    from Cons.IH [OF step(4) Cons.prems(2) mem(2) a(2) a(1) Cons.prems(6,7) later]
    show ?thesis .
  qed
qed

lemma map_of_forget_identity:
  "map_of (map (\<lambda>(k, i, v). (k, v)) m) k = map_option snd (map_of m k)"
  by (induction m) auto

lemma keys_forget_identity [simp]: "keys (map (\<lambda>(k, i, v). (k, v)) m) = keys m"
  by (induction m) (auto simp: keys_def)

subsection \<open>Adaptation of the sources\<close>

lemma adaptSources_loop_keys:
  "adaptSources_loop adapt names srcs = (tr, Inr out) \<Longrightarrow> keys out = keys srcs"
proof (induction names arbitrary: srcs tr)
  case Nil
  then show ?case by (simp add: ret_eq_iff)
next
  case (Cons name names)
  show ?case
  proof (cases "map_of srcs name")
    case None
    with Cons show ?thesis by simp
  next
    case (Some v)
    show ?thesis
    proof (cases "has_method v ''shamefullySendNext''")
      case False
      with Some Cons show ?thesis by simp
    next
      case True
      with Some Cons.prems obtain v' tr' where
        "adaptSources_loop adapt names (obj_set srcs name v') = (tr', Inr out)"
        by (auto simp: andThen_Inr_iff emit_Inr_iff raise_eq_iff split: outcome.splits)
      from Cons.IH [OF this] map_of_keys [OF Some] show ?thesis
        by (simp add: keys_obj_set_mem)
    qed
  qed
qed

subsection \<open>Assignment to a property\<close>

lemma map_of_update_prop:
  "map_of ps k = Some (v, en, wr) \<Longrightarrow> map_of (update_prop k x ps) k = Some (x, en, wr)"
  by (induction ps) auto

lemma set_prop_get:
  "set_prop v k x = Inr v' \<Longrightarrow> get_prop v' k = Inr x"
  by (cases v) (auto simp: map_of_update_prop split: option.splits if_splits)

lemma set_prop_new:
  "\<not> has_prop v k \<Longrightarrow> set_prop v k x = Inr v' \<Longrightarrow>
   \<exists>ps. v = Object ps \<and> v' = Object (ps @ [(k, x, True, True)])"
  by (cases v) (auto simp: has_prop_def split: option.splits)

subsection \<open>The tagging example, evaluated\<close>

lemma tag_example:
  "callDrivers tag_drivers tag_proxies =
     ([CallDriver ''A'' (Own 0), CallDriver ''B'' (Own 1)],
      Inr [(''A'', Object [(''_isCycleSource'', Str ''A'', True, True)]), (''B'', Str ''src'')])"
  by (simp add: callDrivers_def tag_drivers_def tag_proxies_def keys_def js_lookup_def
        hasOwnProperty_def tag_source_def is_object_def write_shared_def
        andThen_def emit_def lift_def ret_def)

subsection \<open>A registry with a driver named hasOwnProperty\<close>


subsection \<open>Keys of the sources\<close>

lemma adaptSources_keys:
  "adaptSources adapt srcs = (tr, Inr out) \<Longrightarrow> keys out = keys srcs"
  unfolding adaptSources_def by (rule adaptSources_loop_keys)

lemma callDrivers_keys:
  assumes "map_of ds ''hasOwnProperty'' = None" and "distinct (keys ds)"
    and "callDrivers ds px = (tr, Inr srcs)"
  shows "keys srcs = keys ds"
proof -
  from assms(3) obtain tr' out where
    out: "callDrivers_loop ds px (keys ds) [] = (tr', Inr out)"
      "srcs = map (\<lambda>(k, i, v). (k, v)) out"
    by (auto simp: callDrivers_def andThen_Inr_iff ret_eq_iff)
  from callDrivers_loop_keys [OF out(1) assms(1) subset_refl] assms(2) out(2)
  show ?thesis by simp
qed

subsection \<open>The logger and the two writers\<close>

lemma get_prop_Inl_iff: "get_prop v k = Inl e \<longleftrightarrow> nullish v \<and> e = TypeError"
  by (cases v) (auto simp: nullish_def split: option.splits)

lemma logToConsoleError_eq:
  "logToConsoleError c err =
     (if nullish err then ([], Inl TypeError) else (diagnostic c err, Inr ()))"
proof (cases "get_prop err ''stack''")
  case (Inl e)
  then have "nullish err" "e = TypeError" by (simp_all add: get_prop_Inl_iff)
  with Inl show ?thesis
    by (simp add: logToConsoleError_def raise_def)
next
  case (Inr stack)
  then have "\<not> nullish err" by (cases err) (simp_all add: nullish_def)
  with Inr show ?thesis
    by (simp add: logToConsoleError_def diagnostic_def log_target_def Let_def emit_def ret_def)
qed

lemma write_next_eq:
  "write_next px name x =
     (case js_lookup px name of Own p \<Rightarrow> ([ProxyNext name x], Inr ()) | _ \<Rightarrow> ([], Inl TypeError))"
  by (simp add: write_next_def listener_call_def emit_def raise_def split: lookup.splits)

lemma write_error_eq:
  "write_error c px name err =
     (if nullish err then ([], Inl TypeError)
      else case js_lookup px name of
             Own p \<Rightarrow> (diagnostic c err @ [ProxyError name err], Inr ())
           | _ \<Rightarrow> (diagnostic c err, Inl TypeError))"
  by (simp add: write_error_def logToConsoleError_eq listener_call_def andThen_def emit_def
        raise_def split: lookup.splits)

subsection \<open>Loops\<close>

lemma forEach_trace:
  assumes "\<And>x. x \<in> set xs \<Longrightarrow> prefix (fst (f x)) (g x)"
    and "\<And>x u. x \<in> set xs \<Longrightarrow> snd (f x) = Inr u \<Longrightarrow> fst (f x) = g x"
  shows "prefix (fst (forEach f xs)) (concat (map g xs))
       \<and> (\<forall>u. snd (forEach f xs) = Inr u \<longrightarrow> fst (forEach f xs) = concat (map g xs))"
  using assms
proof (induction xs)
  case Nil
  then show ?case by (simp add: ret_def)
next
  case (Cons x xs)
  obtain t r where fx: "f x = (t, r)" by (cases "f x")
  show ?case
  proof (cases r)
    case (Inl e)
    with fx Cons.prems(1) [of x] show ?thesis
      by (auto simp: andThen_def prefix_def)
  next
    case (Inr u)
    with fx Cons.prems(2) [of x u] have t: "t = g x" by simp
    from Cons.IH Cons.prems have
      ih: "prefix (fst (forEach f xs)) (concat (map g xs))"
        "\<forall>u. snd (forEach f xs) = Inr u \<longrightarrow> fst (forEach f xs) = concat (map g xs)"
      by auto
    obtain t' r' where fr: "forEach f xs = (t', r')" by (cases "forEach f xs")
    with fx Inr t ih show ?thesis
      by (auto simp: andThen_def)
  qed
qed

subsection \<open>Subscription: everything a sink emits is buffered\<close>

lemma emissions_buffered:
  assumes "name \<in> set (active st)"
    and "map_of (replicators st) name = Some buffering"
    and "buffers st = Some bs"
    and "map_of bs name = Some (ns, es)"
  shows "\<exists>bs'. foldRes (sink_emits c px name) evs st = ([], Inr (st\<lparr> buffers := Some bs' \<rparr>))
           \<and> map_of bs' = (map_of bs)(name \<mapsto> (ns @ next_values evs, es @ error_values evs))"
  using assms
proof (induction evs arbitrary: st bs ns es)
  case Nil
  then have "st\<lparr> buffers := Some bs \<rparr> = st" by (cases st) simp
  with Nil show ?case
    by (intro exI [of _ bs]) (auto simp: ret_def fun_eq_iff)
next
  case (Cons ev evs)
  show ?case
  proof (cases ev)
    case (EmitNext x)
    let ?st = "st\<lparr> buffers := Some (obj_set bs name (ns @ [x], es)) \<rparr>"
    from Cons.prems EmitNext have step: "sink_emits c px name ev st = ([], Inr ?st)"
      by (simp add: sink_emits_def replicator_receive_def push_next_def buffering_def ret_def)
    have "\<exists>bs'. foldRes (sink_emits c px name) evs ?st = ([], Inr (?st\<lparr> buffers := Some bs' \<rparr>))
           \<and> map_of bs' = (map_of (obj_set bs name (ns @ [x], es)))
                (name \<mapsto> ((ns @ [x]) @ next_values evs, es @ error_values evs))"
      using Cons.prems by (intro Cons.IH) (simp_all add: map_of_obj_set)
    with step EmitNext show ?thesis
      by (auto simp: andThen_def map_of_obj_set)
  next
    case (EmitError err)
    let ?st = "st\<lparr> buffers := Some (obj_set bs name (ns, es @ [err])) \<rparr>"
    from Cons.prems EmitError have step: "sink_emits c px name ev st = ([], Inr ?st)"
      by (simp add: sink_emits_def replicator_receive_def push_error_def buffering_def ret_def)
    have "\<exists>bs'. foldRes (sink_emits c px name) evs ?st = ([], Inr (?st\<lparr> buffers := Some bs' \<rparr>))
           \<and> map_of bs' = (map_of (obj_set bs name (ns, es @ [err])))
                (name \<mapsto> (ns @ next_values evs, (es @ [err]) @ error_values evs))"
      using Cons.prems by (intro Cons.IH) (simp_all add: map_of_obj_set)
    with step EmitError show ?thesis
      by (auto simp: andThen_def map_of_obj_set)
  next
    case EmitComplete
    from Cons.prems EmitComplete have step: "sink_emits c px name ev st = ([], Inr st)"
      by (simp add: sink_emits_def replicator_receive_def ret_def)
    from Cons.IH [OF Cons.prems] step EmitComplete show ?thesis
      by (auto simp: andThen_def)
  qed
qed

lemma subscribe_sink_eq:
  assumes "map_of sks name = Some s"
    and "map_of (replicators st) name = Some buffering"
    and "buffers st = Some bs"
    and "map_of bs name = Some ([], [])"
  shows "\<exists>bs'. subscribe_sink c px sks name st =
             ([Subscribe name],
              Inr (st\<lparr> buffers := Some bs', subscriptions := subscriptions st @ [name],
                       active := active st @ [name] \<rparr>))
           \<and> map_of bs' = (map_of bs)
                (name \<mapsto> (next_values (on_subscribe s), error_values (on_subscribe s)))"
proof -
  let ?st = "st\<lparr> active := active st @ [name] \<rparr>"
  have "\<exists>bs'. foldRes (sink_emits c px name) (on_subscribe s) ?st
                 = ([], Inr (?st\<lparr> buffers := Some bs' \<rparr>))
           \<and> map_of bs' = (map_of bs)
                (name \<mapsto> ([] @ next_values (on_subscribe s), [] @ error_values (on_subscribe s)))"
    using assms by (intro emissions_buffered) simp_all
  then obtain bs' where
    "foldRes (sink_emits c px name) (on_subscribe s) ?st = ([], Inr (?st\<lparr> buffers := Some bs' \<rparr>))"
    "map_of bs' = (map_of bs)
       (name \<mapsto> (next_values (on_subscribe s), error_values (on_subscribe s)))"
    by auto
  with assms(1) show ?thesis
    by (intro exI [of _ bs']) (simp add: subscribe_sink_def andThen_def emit_def ret_def)
qed

lemma subscribe_all:
  assumes "distinct names"
    and "\<forall>n \<in> set names. map_of sks n \<noteq> None"
    and "\<forall>n \<in> set names. map_of (replicators st) n = Some buffering"
    and "buffers st = Some bs"
    and "\<forall>n \<in> set names. map_of bs n = Some ([], [])"
  shows "\<exists>bs'. foldRes (subscribe_sink c px sks) names st =
             (map Subscribe names,
              Inr (st\<lparr> buffers := Some bs', subscriptions := subscriptions st @ names,
                       active := active st @ names \<rparr>))
           \<and> (\<forall>n. map_of bs' n =
                 (if n \<in> set names
                  then Some (next_values (emissions_of sks n), error_values (emissions_of sks n))
                  else map_of bs n))"
  using assms
proof (induction names arbitrary: st bs)
  case Nil
  then have "st\<lparr> buffers := Some bs \<rparr> = st" by (cases st) simp
  with Nil show ?case
    by (intro exI [of _ bs]) (simp add: ret_def)
next
  case (Cons name names)
  from Cons.prems(2) obtain s where s: "map_of sks name = Some s" by auto
  from subscribe_sink_eq [OF s, of st bs c px] Cons.prems obtain bs1 where
    one: "subscribe_sink c px sks name st =
             ([Subscribe name],
              Inr (st\<lparr> buffers := Some bs1, subscriptions := subscriptions st @ [name],
                       active := active st @ [name] \<rparr>))"
      "map_of bs1 = (map_of bs)
         (name \<mapsto> (next_values (on_subscribe s), error_values (on_subscribe s)))"
    by auto
  let ?st = "st\<lparr> buffers := Some bs1, subscriptions := subscriptions st @ [name],
                 active := active st @ [name] \<rparr>"
  from Cons.prems(1) have nm: "name \<notin> set names" by simp
  have "\<exists>bs'. foldRes (subscribe_sink c px sks) names ?st =
             (map Subscribe names,
              Inr (?st\<lparr> buffers := Some bs', subscriptions := subscriptions ?st @ names,
                       active := active ?st @ names \<rparr>))
           \<and> (\<forall>n. map_of bs' n =
                 (if n \<in> set names
                  then Some (next_values (emissions_of sks n), error_values (emissions_of sks n))
                  else map_of bs1 n))"
    using Cons.prems nm one(2) by (intro Cons.IH) auto
  then obtain bs' where
    rest: "foldRes (subscribe_sink c px sks) names ?st =
             (map Subscribe names,
              Inr (?st\<lparr> buffers := Some bs', subscriptions := subscriptions ?st @ names,
                       active := active ?st @ names \<rparr>))"
      "\<forall>n. map_of bs' n =
                 (if n \<in> set names
                  then Some (next_values (emissions_of sks n), error_values (emissions_of sks n))
                  else map_of bs1 n)"
    by auto
  from one(1) rest(1) have
    "foldRes (subscribe_sink c px sks) (name # names) st =
       (map Subscribe (name # names),
        Inr (st\<lparr> buffers := Some bs', subscriptions := subscriptions st @ name # names,
                 active := active st @ name # names \<rparr>))"
    by (simp add: andThen_def)
  moreover from rest(2) one(2) s nm have
    "\<forall>n. map_of bs' n =
        (if n \<in> set (name # names)
         then Some (next_values (emissions_of sks n), error_values (emissions_of sks n))
         else map_of bs n)"
    by (auto simp: emissions_of_def)
  ultimately show ?case by blast
qed

subsection \<open>The flush\<close>

lemma flush_and_swap_trace:
  assumes "buffers st = Some bs"
    and "map_of bs name = Some (ns, es)"
    and "map_of (replicators st) name = Some r"
  shows "prefix (fst (flush_and_swap c px name st)) (flush_trace c name ns es)
       \<and> (\<forall>st'. snd (flush_and_swap c px name st) = Inr st' \<longrightarrow>
             fst (flush_and_swap c px name st) = flush_trace c name ns es
           \<and> st' = st\<lparr> replicators := obj_set (replicators st) name forwarding \<rparr>)"
proof -
  let ?A = "forEach (write_next px name) ns"
  let ?B = "forEach (write_error c px name) es"
  let ?gA = "\<lambda>x. [ProxyNext name x]"
  let ?gB = "\<lambda>err. diagnostic c err @ [ProxyError name err]"
  have A: "prefix (fst ?A) (concat (map ?gA ns))
       \<and> (\<forall>u. snd ?A = Inr u \<longrightarrow> fst ?A = concat (map ?gA ns))"
    by (rule forEach_trace) (auto simp: write_next_eq split: lookup.splits)
  have B: "prefix (fst ?B) (concat (map ?gB es))
       \<and> (\<forall>u. snd ?B = Inr u \<longrightarrow> fst ?B = concat (map ?gB es))"
    by (rule forEach_trace) (auto simp: write_error_eq split: lookup.splits if_splits)
  have cA: "concat (map ?gA ns) = map (ProxyNext name) ns"
    by (induction ns) simp_all
  obtain tA rA where a: "?A = (tA, rA)" by (cases ?A)
  obtain tB rB where b: "?B = (tB, rB)" by (cases ?B)
  have fs: "flush_and_swap c px name st =
      andThen ?A (\<lambda>_. andThen ?B (\<lambda>_.
        ret (st\<lparr> replicators := obj_set (replicators st) name forwarding \<rparr>)))"
    using assms by (simp add: flush_and_swap_def forwarding_def)
  show ?thesis
  proof (cases rA)
    case (Inl e)
    with a A cA show ?thesis
      by (auto simp: fs andThen_def flush_trace_def prefix_def)
  next
    case ra: (Inr u)
    with a A cA have tA: "tA = map (ProxyNext name) ns" by simp
    show ?thesis
    proof (cases rB)
      case (Inl e)
      with a b ra tA B show ?thesis
        by (auto simp: fs andThen_def flush_trace_def)
    next
      case (Inr u')
      with b B have "tB = concat (map ?gB es)" by simp
      with a b ra tA Inr show ?thesis
        by (simp add: fs andThen_def flush_trace_def ret_def)
    qed
  qed
qed

lemma flush_all:
  assumes "buffers st = Some bs"
    and "\<forall>n \<in> set names. map_of bs n = Some (B n)"
    and "\<forall>n \<in> set names. map_of (replicators st) n \<noteq> None"
  shows "prefix (fst (foldRes (flush_and_swap c px) names st))
           (concat (map (\<lambda>n. flush_trace c n (fst (B n)) (snd (B n))) names))
       \<and> (\<forall>st'. snd (foldRes (flush_and_swap c px) names st) = Inr st' \<longrightarrow>
             fst (foldRes (flush_and_swap c px) names st)
               = concat (map (\<lambda>n. flush_trace c n (fst (B n)) (snd (B n))) names)
           \<and> (\<exists>R. st' = st\<lparr> replicators := R \<rparr>
                \<and> (\<forall>n. map_of R n =
                      (if n \<in> set names then Some forwarding else map_of (replicators st) n))))"
  using assms
proof (induction names arbitrary: st)
  case Nil
  have "st\<lparr> replicators := replicators st \<rparr> = st" by simp
  then show ?case
    by (auto simp: ret_def intro!: exI [of _ "replicators st"])
next
  case (Cons name names)
  from Cons.prems obtain r where r: "map_of (replicators st) name = Some r" by auto
  from Cons.prems have b: "map_of bs name = Some (fst (B name), snd (B name))" by simp
  let ?seg = "flush_trace c name (fst (B name)) (snd (B name))"
  let ?st1 = "st\<lparr> replicators := obj_set (replicators st) name forwarding \<rparr>"
  note one = flush_and_swap_trace [OF Cons.prems(1) b r, of c px]
  obtain t1 r1 where f1: "flush_and_swap c px name st = (t1, r1)"
    by (cases "flush_and_swap c px name st")
  show ?case
  proof (cases r1)
    case (Inl e)
    with f1 one show ?thesis
      by (auto simp: andThen_def prefix_def)
  next
    case (Inr st1)
    with f1 one have t1: "t1 = ?seg" and st1: "st1 = ?st1" by simp_all
    have ih: "prefix (fst (foldRes (flush_and_swap c px) names ?st1))
           (concat (map (\<lambda>n. flush_trace c n (fst (B n)) (snd (B n))) names))
       \<and> (\<forall>st'. snd (foldRes (flush_and_swap c px) names ?st1) = Inr st' \<longrightarrow>
             fst (foldRes (flush_and_swap c px) names ?st1)
               = concat (map (\<lambda>n. flush_trace c n (fst (B n)) (snd (B n))) names)
           \<and> (\<exists>R. st' = ?st1\<lparr> replicators := R \<rparr>
                \<and> (\<forall>n. map_of R n =
                      (if n \<in> set names then Some forwarding else map_of (replicators ?st1) n))))"
      using Cons.prems by (intro Cons.IH) (auto simp: map_of_obj_set)
    obtain t2 r2 where f2: "foldRes (flush_and_swap c px) names ?st1 = (t2, r2)"
      by (cases "foldRes (flush_and_swap c px) names ?st1")
    have whole: "foldRes (flush_and_swap c px) (name # names) st = (?seg @ t2, r2)"
      using f1 Inr t1 st1 f2 by (simp add: andThen_def)
    from ih f2 have p: "prefix (?seg @ t2)
        (concat (map (\<lambda>n. flush_trace c n (fst (B n)) (snd (B n))) (name # names)))"
      by simp
    have "t2 = concat (map (\<lambda>n. flush_trace c n (fst (B n)) (snd (B n))) names)
        \<and> (\<exists>R. st' = st\<lparr> replicators := R \<rparr>
                \<and> (\<forall>n. map_of R n =
                      (if n \<in> set (name # names) then Some forwarding
                       else map_of (replicators st) n)))"
      if "r2 = Inr st'" for st'
    proof -
      from ih f2 that obtain R where
        R: "t2 = concat (map (\<lambda>n. flush_trace c n (fst (B n)) (snd (B n))) names)"
          "st' = ?st1\<lparr> replicators := R \<rparr>"
          "\<forall>n. map_of R n =
             (if n \<in> set names then Some forwarding else map_of (replicators ?st1) n)"
        by auto
      from R(2) have "st' = st\<lparr> replicators := R \<rparr>" by simp
      moreover from R(3) have "\<forall>n. map_of R n =
          (if n \<in> set (name # names) then Some forwarding else map_of (replicators st) n)"
        by (auto simp: map_of_obj_set)
      ultimately show ?thesis using R(1) by blast
    qed
    with whole p show ?thesis by auto
  qed
qed

subsection \<open>The whole of replicateMany\<close>

lemma map_of_foldl_obj_set:
  "map_of (foldl (\<lambda>b n. obj_set b n v) acc names) k =
     (if k \<in> set names then Some v else map_of acc k)"
  by (induction names arbitrary: acc) (auto simp: map_of_obj_set)

lemma replicateMany_trace:
  assumes "distinct (keys sks)"
  shows "prefix (fst (replicateMany c sks px)) (run_effects c sks px)
       \<and> (\<forall>st. snd (replicateMany c sks px) = Inr st \<longrightarrow>
             fst (replicateMany c sks px) = run_effects c sks px
           \<and> sinkNames st = sink_names sks px
           \<and> buffers st = None
           \<and> subscriptions st = sink_names sks px
           \<and> active st = sink_names sks px
           \<and> (\<forall>n. map_of (replicators st) n =
                 (if n \<in> set (sink_names sks px) then Some forwarding else None)))"
proof -
  let ?names = "sink_names sks px"
  let ?st0 = "init_replication ?names"
  from assms have dn: "distinct ?names" by (simp add: sink_names_def)
  have inks: "\<forall>n \<in> set ?names. map_of sks n \<noteq> None"
    by (auto simp: sink_names_def keys_def map_of_eq_None_iff)
  obtain bs0 where bs0: "buffers ?st0 = Some bs0"
      "\<forall>n \<in> set ?names. map_of bs0 n = Some ([], [])"
    by (simp add: init_replication_def map_of_foldl_obj_set)
  have r0: "\<forall>n. map_of (replicators ?st0) n = (if n \<in> set ?names then Some buffering else None)"
    by (simp add: init_replication_def map_of_foldl_obj_set buffering_def)
  from subscribe_all [OF dn inks _ bs0, of c px] r0 obtain bs1 where
    p1: "foldRes (subscribe_sink c px sks) ?names ?st0 =
             (map Subscribe ?names,
              Inr (?st0\<lparr> buffers := Some bs1, subscriptions := subscriptions ?st0 @ ?names,
                       active := active ?st0 @ ?names \<rparr>))"
      "\<forall>n. map_of bs1 n =
                 (if n \<in> set ?names
                  then Some (next_values (emissions_of sks n), error_values (emissions_of sks n))
                  else map_of bs0 n)"
    by auto
  let ?st1 = "?st0\<lparr> buffers := Some bs1, subscriptions := subscriptions ?st0 @ ?names,
                       active := active ?st0 @ ?names \<rparr>"
  let ?B = "\<lambda>n. (next_values (emissions_of sks n), error_values (emissions_of sks n))"
  have segs: "flush_effects c sks =
      (\<lambda>n. flush_trace c n (next_values (emissions_of sks n)) (error_values (emissions_of sks n)))"
    by (simp add: flush_effects_def fun_eq_iff)
  have p2: "prefix (fst (foldRes (flush_and_swap c px) ?names ?st1))
           (concat (map (\<lambda>n. flush_trace c n (fst (?B n)) (snd (?B n))) ?names))
       \<and> (\<forall>st'. snd (foldRes (flush_and_swap c px) ?names ?st1) = Inr st' \<longrightarrow>
             fst (foldRes (flush_and_swap c px) ?names ?st1)
               = concat (map (\<lambda>n. flush_trace c n (fst (?B n)) (snd (?B n))) ?names)
           \<and> (\<exists>R. st' = ?st1\<lparr> replicators := R \<rparr>
                \<and> (\<forall>n. map_of R n =
                      (if n \<in> set ?names then Some forwarding else map_of (replicators ?st1) n))))"
    using p1(2) r0 by (intro flush_all [where bs = bs1]) auto
  obtain t2 r2 where f2: "foldRes (flush_and_swap c px) ?names ?st1 = (t2, r2)"
    by (cases "foldRes (flush_and_swap c px) ?names ?st1")
  have whole: "replicateMany c sks px =
      (map Subscribe ?names @ t2,
       case r2 of Inl e \<Rightarrow> Inl e | Inr st' \<Rightarrow> Inr (st'\<lparr> buffers := None \<rparr>))"
    using p1(1) f2
    by (simp add: replicateMany_def sink_names_def [symmetric] Let_def andThen_def ret_def
          split: sum.splits)
  from p2 f2 have pre: "prefix (map Subscribe ?names @ t2) (run_effects c sks px)"
    by (simp add: run_effects_def segs)
  have "map Subscribe ?names @ t2 = run_effects c sks px
           \<and> sinkNames st = ?names \<and> buffers st = None
           \<and> subscriptions st = ?names \<and> active st = ?names
           \<and> (\<forall>n. map_of (replicators st) n =
                 (if n \<in> set ?names then Some forwarding else None))"
    if "snd (replicateMany c sks px) = Inr st" for st
  proof -
    from that whole obtain st' where st': "r2 = Inr st'" "st = st'\<lparr> buffers := None \<rparr>"
      by (cases r2) auto
    with p2 f2 obtain R where
      R: "t2 = concat (map (flush_effects c sks) ?names)"
        "st' = ?st1\<lparr> replicators := R \<rparr>"
        "\<forall>n. map_of R n =
           (if n \<in> set ?names then Some forwarding else map_of (replicators ?st1) n)"
      by (auto simp: segs)
    from R(3) r0 have "\<forall>n. map_of R n = (if n \<in> set ?names then Some forwarding else None)"
      by simp
    with R(1,2) st'(2) show ?thesis
      by (simp add: run_effects_def init_replication_def)
  qed
  with whole pre show ?thesis by simp
qed

subsection \<open>Disposal\<close>

lemma concat_map_if:
  "concat (map (\<lambda>k. if P k then [f k] else []) ks) = map f (filter P ks)"
  by (induction ks) simp_all

lemma disposeSources_trace:
  "prefix (fst (disposeSources srcs)) (map DisposeSource (filter (has_teardown srcs) (keys srcs)))
   \<and> (\<forall>u. snd (disposeSources srcs) = Inr u \<longrightarrow>
         fst (disposeSources srcs) = map DisposeSource (filter (has_teardown srcs) (keys srcs)))"
proof -
  let ?f = "\<lambda>k. case map_of srcs k of None \<Rightarrow> ret () | Some v \<Rightarrow> dispose_source k v"
  let ?g = "\<lambda>k. if has_teardown srcs k then [DisposeSource k] else []"
  have "prefix (fst (forEach ?f (keys srcs))) (concat (map ?g (keys srcs)))
       \<and> (\<forall>u. snd (forEach ?f (keys srcs)) = Inr u \<longrightarrow>
             fst (forEach ?f (keys srcs)) = concat (map ?g (keys srcs)))"
  proof (rule forEach_trace)
    fix k
    show "prefix (fst (?f k)) (?g k)"
      by (auto simp: has_teardown_def dispose_source_def ret_def raise_def emit_def lift_def
            andThen_def split: option.splits sum.splits)
  next
    fix k u
    assume "snd (?f k) = Inr u"
    then show "fst (?f k) = ?g k"
      by (auto simp: has_teardown_def dispose_source_def ret_def raise_def emit_def lift_def
            andThen_def split: option.splits sum.splits if_splits)
  qed
  then show ?thesis
    by (simp add: disposeSources_def concat_map_if)
qed

lemma unsubscribe_all:
  "foldRes unsubscribe names st =
     (map Unsubscribe names, Inr (st\<lparr> active := filter (\<lambda>n. n \<notin> set names) (active st) \<rparr>))"
proof (induction names arbitrary: st)
  case Nil
  then show ?case by (simp add: ret_def)
next
  case (Cons name names)
  have "filter (\<lambda>n. n \<notin> set names) (removeAll name xs)
      = filter (\<lambda>n. n \<notin> set (name # names)) xs" for xs
    by (induction xs) auto
  with Cons.IH [of "st\<lparr> active := removeAll name (active st) \<rparr>"] show ?case
    by (simp add: unsubscribe_def andThen_def emit_def ret_def)
qed

lemma complete_all_trace:
  "prefix (fst (forEach (\<lambda>name. listener_call px name (ProxyComplete name)) names))
      (map ProxyComplete names)
   \<and> (\<forall>u. snd (forEach (\<lambda>name. listener_call px name (ProxyComplete name)) names) = Inr u \<longrightarrow>
         fst (forEach (\<lambda>name. listener_call px name (ProxyComplete name)) names)
           = map ProxyComplete names)"
proof -
  let ?f = "\<lambda>name. listener_call px name (ProxyComplete name)"
  let ?g = "\<lambda>name. [ProxyComplete name]"
  have "prefix (fst (forEach ?f names)) (concat (map ?g names))
       \<and> (\<forall>u. snd (forEach ?f names) = Inr u \<longrightarrow> fst (forEach ?f names) = concat (map ?g names))"
    by (rule forEach_trace)
       (auto simp: listener_call_def emit_def raise_def split: lookup.splits)
  moreover have "concat (map ?g names) = map ProxyComplete names"
    by (induction names) simp_all
  ultimately show ?thesis by simp
qed

lemma dispose_trace:
  "prefix (fst (dispose prog st)) (dispose_effects prog st)
   \<and> (\<forall>st'. snd (dispose prog st) = Inr st' \<longrightarrow>
         fst (dispose prog st) = dispose_effects prog st
       \<and> st' = st\<lparr> active := filter (\<lambda>n. n \<notin> set (subscriptions st)) (active st) \<rparr>)"
proof -
  let ?D = "map DisposeSource (filter (has_teardown (sources prog)) (keys (sources prog)))"
  let ?st1 = "st\<lparr> active := filter (\<lambda>n. n \<notin> set (subscriptions st)) (active st) \<rparr>"
  let ?C = "forEach (\<lambda>name. listener_call (sinkProxies prog) name (ProxyComplete name)) (sinkNames st)"
  obtain tD rD where d: "disposeSources (sources prog) = (tD, rD)"
    by (cases "disposeSources (sources prog)")
  obtain tC rC where c: "?C = (tC, rC)" by (cases ?C)
  from disposeSources_trace [of "sources prog"] d have
    D: "prefix tD ?D" "\<forall>u. rD = Inr u \<longrightarrow> tD = ?D"
    by simp_all
  from complete_all_trace [of "sinkProxies prog" "sinkNames st"] c have
    C: "prefix tC (map ProxyComplete (sinkNames st))"
       "\<forall>u. rC = Inr u \<longrightarrow> tC = map ProxyComplete (sinkNames st)"
    by simp_all
  show ?thesis
  proof (cases rD)
    case (Inl e)
    with d D show ?thesis
      by (auto simp: dispose_def dispose_effects_def andThen_def prefix_def)
  next
    case (Inr u)
    with D have tD: "tD = ?D" by simp
    have "dispose prog st =
        (?D @ map Unsubscribe (subscriptions st) @ tC,
         case rC of Inl e \<Rightarrow> Inl e | Inr u \<Rightarrow> Inr ?st1)"
      using d Inr tD c
      by (simp add: dispose_def disposeReplication_def unsubscribe_all andThen_def ret_def
            split: sum.splits)
    with C show ?thesis
      by (cases rC) (auto simp: dispose_effects_def)
  qed
qed

subsection \<open>Emissions after the swap\<close>

lemma sink_emits_forwarding:
  assumes "name \<in> set (active st)"
    and "map_of (replicators st) name = Some forwarding"
    and "js_lookup px name = Own p"
  shows "sink_emits c px name (EmitNext x) st = ([ProxyNext name x], Inr st)"
    and "\<not> nullish err \<Longrightarrow>
         sink_emits c px name (EmitError err) st = (diagnostic c err @ [ProxyError name err], Inr st)"
    and "sink_emits c px name EmitComplete st = ([], Inr st)"
  using assms
  by (simp_all add: sink_emits_def replicator_receive_def forwarding_def write_next_eq
        write_error_eq andThen_def ret_def)

lemma sink_emits_inactive:
  "name \<notin> set (active st) \<Longrightarrow> sink_emits c px name ev st = ([], Inr st)"
  by (simp add: sink_emits_def ret_def)

subsection \<open>What one proxy sees of a run\<close>

lemma filter_concat_none:
  assumes "\<And>m. m \<in> set names \<Longrightarrow> filter P (f m) = []"
  shows "filter P (concat (map f names)) = []"
  using assms by (induction names) auto

lemma filter_concat_single:
  assumes "distinct names" and "n \<in> set names"
    and "\<And>m. m \<in> set names \<Longrightarrow> m \<noteq> n \<Longrightarrow> filter P (f m) = []"
  shows "filter P (concat (map f names)) = filter P (f n)"
  using assms
proof (induction names)
  case Nil
  then show ?case by simp
next
  case (Cons a names)
  show ?case
  proof (cases "a = n")
    case True
    with Cons.prems have "filter P (concat (map f names)) = []"
      by (intro filter_concat_none) auto
    with True show ?thesis by simp
  next
    case False
    with Cons.prems have "filter P (f a) = []" by simp
    moreover from False Cons.prems have "filter P (concat (map f names)) = filter P (f n)"
      by (intro Cons.IH) auto
    ultimately show ?thesis by simp
  qed
qed

lemma on_proxy_diagnostic [simp]: "filter (on_proxy n) (diagnostic c err) = []"
  by (simp add: diagnostic_def)

lemma is_next_diagnostic [simp]: "filter (is_next n) (diagnostic c err) = []"
  by (simp add: diagnostic_def)

lemma on_proxy_flush_trace:
  "filter (on_proxy n) (flush_trace c m ns es) =
     (if m = n then map (ProxyNext n) ns @ map (ProxyError n) es else [])"
proof -
  have a: "filter (on_proxy n) (map (ProxyNext m) ns) = (if m = n then map (ProxyNext n) ns else [])"
    by (induction ns) auto
  have b: "filter (on_proxy n) (concat (map (\<lambda>err. diagnostic c err @ [ProxyError m err]) es))
      = (if m = n then map (ProxyError n) es else [])"
    by (induction es) auto
  from a b show ?thesis by (simp add: flush_trace_def)
qed

lemma is_next_flush_trace:
  "filter (is_next n) (flush_trace c m ns es) = (if m = n then map (ProxyNext n) ns else [])"
proof -
  have a: "filter (is_next n) (map (ProxyNext m) ns) = (if m = n then map (ProxyNext n) ns else [])"
    by (induction ns) auto
  have b: "filter (is_next n) (concat (map (\<lambda>err. diagnostic c err @ [ProxyError m err]) es)) = []"
    by (induction es) auto
  from a b show ?thesis by (simp add: flush_trace_def)
qed

lemma on_proxy_Subscribe [simp]: "filter (on_proxy n) (map Subscribe names) = []"
  by (induction names) simp_all

lemma is_next_Subscribe [simp]: "filter (is_next n) (map Subscribe names) = []"
  by (induction names) simp_all

lemma replicated_name:
  "map_of sks n = Some s \<Longrightarrow> map_of px n = Some p \<Longrightarrow> n \<in> set (sink_names sks px)"
  by (auto simp: sink_names_def js_lookup_def dest: map_of_keys)

lemma distinct_sink_names: "distinct (keys sks) \<Longrightarrow> distinct (sink_names sks px)"
  by (simp add: sink_names_def)


lemma is_next_run_effects:
  assumes "distinct (keys sks)" and "map_of sks n = Some s" and "map_of px n = Some p"
  shows "filter (is_next n) (run_effects c sks px) =
     map (ProxyNext n) (next_values (on_subscribe s))"
proof -
  from assms have mem: "n \<in> set (sink_names sks px)" by (simp add: replicated_name)
  have "filter (is_next n) (concat (map (flush_effects c sks) (sink_names sks px)))
      = filter (is_next n) (flush_effects c sks n)"
    using distinct_sink_names [OF assms(1)] mem
    by (rule filter_concat_single) (simp add: flush_effects_def is_next_flush_trace)
  with assms(2) show ?thesis
    by (simp add: run_effects_def flush_effects_def is_next_flush_trace emissions_of_def)
qed

lemma run_effects_split:
  assumes "n \<in> set (sink_names sks px)"
  shows "\<exists>pre post. run_effects c sks px = pre @ flush_effects c sks n @ post"
proof -
  from assms obtain xs ys where "sink_names sks px = xs @ n # ys"
    by (auto dest: split_list)
  then have "run_effects c sks px =
      (map Subscribe (sink_names sks px) @ concat (map (flush_effects c sks) xs))
      @ flush_effects c sks n @ concat (map (flush_effects c sks) ys)"
    by (simp add: run_effects_def)
  then show ?thesis by blast
qed

subsection \<open>Passive subscribers\<close>

lemma flush_each_quiet:
  "flush_each inject (\<lambda>i. []) c px i xs st = andThen (forEach inject xs) (\<lambda>_. ret st)"
proof (induction xs arbitrary: i)
  case Nil
  show ?case by simp
next
  case (Cons x xs)
  from Cons.IH [of "Suc i"] show ?case by (simp add: andThen_assoc)
qed

lemma forEach_keeps_state:
  "andThen (andThen (forEach f xs) (\<lambda>_. ret st)) g = andThen (forEach f xs) (\<lambda>_. g st)"
  by (simp add: andThen_assoc)

lemma flush_and_swap_in_quiet:
  assumes "\<forall>m i. to_next env m i = [] \<and> to_error env m i = []"
  shows "flush_and_swap_in env c px name st = flush_and_swap c px name st"
proof -
  from assms have q: "to_next env name = (\<lambda>i. [])" "to_error env name = (\<lambda>i. [])"
    by (simp_all add: fun_eq_iff)
  show ?thesis
  proof (cases "buffers st")
    case None
    then show ?thesis by (simp add: flush_and_swap_in_def flush_and_swap_def)
  next
    case (Some bs)
    show ?thesis
    proof (cases "map_of bs name")
      case None
      with Some show ?thesis by (simp add: flush_and_swap_in_def flush_and_swap_def)
    next
      case (Some b)
      obtain ns es where b: "b = (ns, es)" by (cases b)
      with Some \<open>buffers st = Some bs\<close> show ?thesis
        by (simp add: flush_and_swap_in_def flush_and_swap_def q flush_each_quiet
              forEach_keeps_state)
    qed
  qed
qed

lemma replicateMany_in_quiet:
  assumes "\<forall>m i. to_next env m i = [] \<and> to_error env m i = []"
  shows "replicateMany_in env c sks px = replicateMany c sks px"
proof -
  from assms have "flush_and_swap_in env c px = flush_and_swap c px"
    by (simp add: fun_eq_iff flush_and_swap_in_quiet)
  then show ?thesis by (simp add: replicateMany_in_def replicateMany_def)
qed

subsection \<open>The examples of replication, evaluated\<close>

lemma interleaved_run:
  "replicateMany (Some (Console True True)) interleaved_sinks early_proxies =
     ([Subscribe ''A'', ProxyNext ''A'' (Number 1), ProxyNext ''A'' (Number 2),
       ConsoleError (Str ''boom''), ProxyError ''A'' (Str ''boom'')],
      Inr \<lparr> sinkNames = [''A''], buffers = None, replicators = [(''A'', forwarding)],
            subscriptions = [''A''], active = [''A''] \<rparr>)"
  by (simp add: replicateMany_def interleaved_sinks_def early_proxies_def keys_def
        js_lookup_def object_prototype_names_def init_replication_def subscribe_sink_def
        sink_emits_def replicator_receive_def push_next_def push_error_def
        flush_and_swap_def write_next_def write_error_def listener_call_def
        logToConsoleError_def console_error_ok_def forwarding_def
        andThen_def emit_def lift_def ret_def Let_def)

lemmas engine_eval =
  replicateMany_def program_run_def dispose_def disposeSources_def dispose_source_def
  disposeReplication_def unsubscribe_def keys_def
  js_lookup_def object_prototype_names_def init_replication_def subscribe_sink_def
  sink_emits_def replicator_receive_def push_next_def push_error_def
  flush_and_swap_def write_next_def write_error_def listener_call_def
  logToConsoleError_def console_error_ok_def console_log_ok_def forwarding_def
  andThen_def emit_def lift_def ret_def raise_def Let_def

lemmas setup_eval =
  setup_cycle_def isObjectEmpty_def keys_def makeSinkProxies_def callDrivers_def
  adaptSources_def js_lookup_def hasOwnProperty_def tag_source_def is_object_def
  write_shared_def has_method_def set_window_sinks_def
  andThen_def emit_def lift_def ret_def raise_def

lemma early_setup:
  "setup_cycle Returns 0 None (ArgFunction (\<lambda>srcs. Returns early_sinks) :: (main_fn, unit) arg)
     (ArgObject early_drivers :: (unit, driver obj) arg)
   = ([CreateProxy 0, CreateProxy 1, CallDriver ''A'' (Own 0), CallDriver ''B'' (Own 1), CallMain],
      Inr (early_program, None))"
  by (simp add: setup_eval early_drivers_def early_program_def early_proxies_def)

lemma early_run:
  "program_run None early_program = ([Subscribe ''A''], Inr early_state)"
  by (simp add: engine_eval early_program_def early_sinks_def early_proxies_def early_state_def)

lemma early_dispose:
  "dispose early_program early_state =
     ([Unsubscribe ''A'', ProxyComplete ''A''], Inr (early_state\<lparr> active := [] \<rparr>))"
  by (simp add: engine_eval early_program_def early_sinks_def early_proxies_def early_state_def)

subsection \<open>No completion outside disposal\<close>

lemma andThen_effects:
  assumes "e \<notin> set (fst m)" and "\<And>x. e \<notin> set (fst (f x))"
  shows "e \<notin> set (fst (andThen m f))"
proof (cases m)
  case (Pair tr r)
  show ?thesis
  proof (cases r)
    case (Inl err)
    with Pair assms(1) show ?thesis by (simp add: andThen_def)
  next
    case (Inr x)
    obtain a b where fx: "f x = (a, b)" by (cases "f x")
    with assms(2) [of x] have "e \<notin> set a" by simp
    with Pair Inr fx assms(1) show ?thesis by (simp add: andThen_def)
  qed
qed

lemma hasOwnProperty_no_complete:
  "ProxyComplete n \<notin> set (fst (hasOwnProperty ds name))"
proof (cases "map_of ds ''hasOwnProperty''")
  case None
  then show ?thesis by (simp add: hasOwnProperty_def ret_def)
next
  case (Some g)
  have "ProxyComplete n \<notin> set (fst (andThen (emit (CallHasOwnProperty name))
      (\<lambda>_. case g (NameArg name) Undefined of
              Throws e \<Rightarrow> raise (Thrown e)
            | Returns (i, v) \<Rightarrow> ret (truthy v))))"
    by (rule andThen_effects)
       (simp_all add: emit_def raise_def ret_def split: outcome.splits prod.splits)
  with Some show ?thesis by (simp add: hasOwnProperty_def)
qed

lemma makeSinkProxies_loop_no_complete:
  "ProxyComplete n \<notin> set (fst (makeSinkProxies_loop ds h names acc))"
proof (induction names arbitrary: h acc)
  case Nil
  show ?case by (simp add: ret_def)
next
  case (Cons name names)
  have inner: "ProxyComplete n \<notin> set (fst (andThen (emit (CreateProxy h))
      (\<lambda>_. makeSinkProxies_loop ds (Suc h) names (obj_set acc name h))))"
    by (rule andThen_effects) (simp_all add: emit_def Cons.IH)
  have "ProxyComplete n \<notin> set (fst (andThen (hasOwnProperty ds name) (\<lambda>own.
       if own then
         andThen (emit (CreateProxy h)) (\<lambda>_.
           makeSinkProxies_loop ds (Suc h) names (obj_set acc name h))
       else makeSinkProxies_loop ds h names acc)))"
    by (rule andThen_effects) (simp_all add: hasOwnProperty_no_complete inner Cons.IH)
  then show ?case by simp
qed

lemma callDrivers_loop_no_complete:
  "ProxyComplete n \<notin> set (fst (callDrivers_loop ds px names acc))"
proof (induction names arbitrary: acc)
  case Nil
  show ?case by (simp add: ret_def)
next
  case (Cons name names)
  have called: "ProxyComplete n \<notin> set (fst (case map_of ds name of
            None \<Rightarrow> raise TypeError
          | Some d \<Rightarrow>
              andThen (emit (CallDriver name (js_lookup px name))) (\<lambda>_.
                case d (ProxyArg (js_lookup px name)) (Str name) of
                  Throws e \<Rightarrow> raise (Thrown e)
                | Returns (i, v) \<Rightarrow>
                    andThen (lift (tag_source name v)) (\<lambda>v'.
                      callDrivers_loop ds px names
                        (if is_object v then write_shared i v' (obj_set acc name (i, v))
                         else obj_set acc name (i, v))))))"
  proof (cases "map_of ds name")
    case None
    then show ?thesis by (simp add: raise_def)
  next
    case (Some d)
    have inner: "ProxyComplete n \<notin> set (fst (andThen (lift (tag_source name v))
        (\<lambda>v'. callDrivers_loop ds px names
                 (if is_object v then write_shared i v' (obj_set acc name (i, v))
                  else obj_set acc name (i, v)))))" for i v
      by (rule andThen_effects) (simp_all add: lift_def Cons.IH)
    have "ProxyComplete n \<notin> set (fst (andThen (emit (CallDriver name (js_lookup px name)))
        (\<lambda>_. case d (ProxyArg (js_lookup px name)) (Str name) of
                Throws e \<Rightarrow> raise (Thrown e)
              | Returns (i, v) \<Rightarrow>
                  andThen (lift (tag_source name v)) (\<lambda>v'.
                    callDrivers_loop ds px names
                      (if is_object v then write_shared i v' (obj_set acc name (i, v))
                       else obj_set acc name (i, v))))))"
      by (rule andThen_effects)
         (simp_all add: emit_def raise_def inner split: outcome.splits prod.splits)
    with Some show ?thesis by simp
  qed
  have "ProxyComplete n \<notin> set (fst (andThen (hasOwnProperty ds name) (\<lambda>own.
       if own then
         (case map_of ds name of
            None \<Rightarrow> raise TypeError
          | Some d \<Rightarrow>
              andThen (emit (CallDriver name (js_lookup px name))) (\<lambda>_.
                case d (ProxyArg (js_lookup px name)) (Str name) of
                  Throws e \<Rightarrow> raise (Thrown e)
                | Returns (i, v) \<Rightarrow>
                    andThen (lift (tag_source name v)) (\<lambda>v'.
                      callDrivers_loop ds px names
                        (if is_object v then write_shared i v' (obj_set acc name (i, v))
                         else obj_set acc name (i, v)))))
       else callDrivers_loop ds px names acc)))"
    by (rule andThen_effects) (simp_all add: hasOwnProperty_no_complete called Cons.IH)
  then show ?case by simp
qed

lemma callDrivers_no_complete:
  "ProxyComplete n \<notin> set (fst (callDrivers ds px))"
  unfolding callDrivers_def
  by (rule andThen_effects) (simp_all add: callDrivers_loop_no_complete ret_def)

lemma adaptSources_loop_no_complete:
  "ProxyComplete n \<notin> set (fst (adaptSources_loop adapt names srcs))"
proof (induction names arbitrary: srcs)
  case Nil
  show ?case by (simp add: ret_def)
next
  case (Cons name names)
  have "ProxyComplete n \<notin> set (fst (andThen (emit (CallAdapt name))
      (\<lambda>_. case adapt v of
              Throws e \<Rightarrow> raise (Thrown e)
            | Returns v' \<Rightarrow> adaptSources_loop adapt names (obj_set srcs name v'))))" for v
    by (rule andThen_effects) (simp_all add: emit_def raise_def Cons.IH split: outcome.splits)
  with Cons.IH show ?case by (simp split: option.splits)
qed

lemma setup_steps_no_complete:
  "ProxyComplete n \<notin> set (fst (
     andThen (makeSinkProxies h ds) (\<lambda>px.
     andThen (callDrivers ds px) (\<lambda>srcs.
     andThen (adaptSources adapt srcs) (\<lambda>adapted.
     andThen (emit CallMain) (\<lambda>_.
       case mainf adapted of
         Throws e \<Rightarrow> raise (Thrown e)
       | Returns sks \<Rightarrow>
           ret (\<lparr> sources = adapted, sinks = sks, sinkProxies = px \<rparr>,
                set_window_sinks w sks)))))))"
proof (intro andThen_effects)
  show "ProxyComplete n \<notin> set (fst (makeSinkProxies h ds))"
    by (simp add: makeSinkProxies_def makeSinkProxies_loop_no_complete)
  show "ProxyComplete n \<notin> set (fst (callDrivers ds px))" for px
    by (rule callDrivers_no_complete)
  show "ProxyComplete n \<notin> set (fst (adaptSources adapt srcs))" for srcs
    by (simp add: adaptSources_def adaptSources_loop_no_complete)
  show "ProxyComplete n \<notin> set (fst (emit CallMain))"
    by (simp add: emit_def)
  show "ProxyComplete n \<notin> set (fst (case mainf adapted of
         Throws e \<Rightarrow> raise (Thrown e)
       | Returns sks \<Rightarrow>
           ret (\<lparr> sources = adapted, sinks = sks, sinkProxies = px \<rparr>,
                set_window_sinks w sks)))" for adapted px
    by (simp add: raise_def ret_def split: outcome.splits)
qed

lemma setup_no_complete:
  "ProxyComplete n \<notin> set (fst (setup_cycle adapt h w main drivers))"
  by (simp add: setup_cycle_def raise_def setup_steps_no_complete split: arg.splits)

lemma run_effects_no_complete: "ProxyComplete n \<notin> set (run_effects c sks px)"
  by (auto simp: run_effects_def flush_effects_def flush_trace_def diagnostic_def)

lemma replicateMany_no_complete:
  assumes "distinct (keys sks)"
  shows "ProxyComplete n \<notin> set (fst (replicateMany c sks px))"
proof -
  from replicateMany_trace [OF assms, of c px]
  have "set (fst (replicateMany c sks px)) \<subseteq> set (run_effects c sks px)"
    by (auto dest: set_mono_prefix)
  with run_effects_no_complete [of n c sks px] show ?thesis by blast
qed

lemma sink_emits_no_complete:
  "ProxyComplete n \<notin> set (fst (sink_emits c px m ev st))"
  by (cases ev)
     (auto simp: sink_emits_def replicator_receive_def push_next_def push_error_def
        write_next_eq write_error_eq diagnostic_def andThen_def ret_def raise_def
        split: option.splits handler.splits lookup.splits sum.splits prod.splits if_splits)

lemma count_complete:
  "distinct names \<Longrightarrow>
   count_list (map ProxyComplete names) (ProxyComplete n) = (if n \<in> set names then 1 else 0)"
  by (induction names) auto

lemma count_other [simp]:
  "count_list (map DisposeSource ks) (ProxyComplete n) = 0"
  "count_list (map Unsubscribe ks) (ProxyComplete n) = 0"
  by (induction ks) simp_all

lemma proxy_replicated_iff:
  "map_of px n = Some p \<Longrightarrow> n \<in> set (sink_names sks px) \<longleftrightarrow> n \<in> set (keys sks)"
  by (simp add: sink_names_def js_lookup_def)

subsection \<open>The example of disposal, evaluated\<close>



subsection \<open>The example of an inherited name, set up\<close>

lemma phantom_setup:
  "setup_cycle Returns 0 None (ArgFunction (\<lambda>srcs. Returns phantom_sinks) :: (main_fn, unit) arg)
     (ArgObject phantom_drivers :: (unit, driver obj) arg)
   = ([CreateProxy 0, CallDriver ''A'' (Own 0), CallMain], Inr (phantom_program, None))"
  by (simp add: setup_eval phantom_drivers_def phantom_program_def)

subsection \<open>Names that are not replicated\<close>

lemma not_replicated:
  "map_of px n = None \<Longrightarrow> n \<notin> set object_prototype_names \<Longrightarrow> n \<notin> set (sink_names sks px)"
  by (simp add: sink_names_def js_lookup_def)

subsection \<open>Subscribers that answer at once\<close>

lemma buffers_only_refl [simp]: "buffers_only st st"
  by (auto simp: buffers_only_def intro: exI [of _ "buffers st"])

lemma buffers_only_trans: "buffers_only a b \<Longrightarrow> buffers_only b c \<Longrightarrow> buffers_only a c"
  by (auto simp: buffers_only_def)

lemma buffers_only_fields:
  "buffers_only st st' \<Longrightarrow>
   replicators st' = replicators st \<and> active st' = active st
   \<and> sinkNames st' = sinkNames st \<and> subscriptions st' = subscriptions st"
  by (auto simp: buffers_only_def)

lemma harmless_ret: "waiting n vs st \<Longrightarrow> harmless n vs (ret st) st"
  by (simp add: harmless_def ret_def)

lemma harmless_raise [simp]: "harmless n vs (raise e) st"
  by (simp add: harmless_def raise_def)

lemma harmless_push_next:
  "waiting n vs st \<Longrightarrow> harmless n vs (push_next m x st) st"
  by (auto simp: harmless_def push_next_def waiting_def buffers_only_def ret_def raise_def
        map_of_obj_set split: option.splits)

lemma harmless_push_error:
  "waiting n vs st \<Longrightarrow> harmless n vs (push_error m err st) st"
  by (auto simp: harmless_def push_error_def waiting_def buffers_only_def ret_def raise_def
        map_of_obj_set split: option.splits)

lemma harmless_after:
  assumes "filter (is_next n) (fst m) = []" and "harmless n vs k st"
  shows "harmless n vs (andThen m (\<lambda>_. k)) st"
  using assms by (cases m) (auto simp: harmless_def andThen_def split: sum.splits prod.splits)

lemma harmless_then:
  assumes "harmless n vs m st" and "\<And>st'. waiting n vs st' \<Longrightarrow> harmless n vs (f st') st'"
  shows "harmless n vs (andThen m f) st"
proof (cases m)
  case (Pair tr r)
  show ?thesis
  proof (cases r)
    case (Inl e)
    with Pair assms(1) show ?thesis by (simp add: harmless_def andThen_def)
  next
    case (Inr st1)
    with Pair assms(1) have w: "waiting n vs st1" "buffers_only st st1" "filter (is_next n) tr = []"
      by (simp_all add: harmless_def)
    from assms(2) [OF w(1)] have h: "harmless n vs (f st1) st1" .
    obtain tr2 r2 where f: "f st1 = (tr2, r2)" by (cases "f st1")
    with h w Pair Inr show ?thesis
      by (auto simp: harmless_def andThen_def intro: buffers_only_trans)
  qed
qed

lemma is_next_write_next: "m \<noteq> n \<Longrightarrow> filter (is_next n) (fst (write_next px m x)) = []"
  by (simp add: write_next_eq split: lookup.splits)

lemma is_next_write_error: "filter (is_next n) (fst (write_error c px m err)) = []"
  by (simp add: write_error_eq split: lookup.splits)

lemma waiting_not_forwarding:
  "waiting n vs st \<Longrightarrow> map_of (replicators st) m = Some r \<Longrightarrow> r_next r = WriteToProxy \<Longrightarrow> m \<noteq> n"
  by (auto simp: waiting_def)

lemma deliver_harmless:
  "waiting n vs st \<longrightarrow> harmless n vs (deliver c px e st) st"
  "waiting n vs st \<longrightarrow> harmless n vs (deliver_all c px es st) st"
proof (induction c px e st and c px es st rule: deliver_deliver_all.induct)
  case (1 c px name ev echoes st)
  show ?case
  proof
    assume w: "waiting n vs st"
    show "harmless n vs (deliver c px (Echo name ev echoes) st) st"
    proof (cases "name \<in> set (active st)")
      case False
      with w show ?thesis by (simp add: harmless_ret)
    next
      case act: True
      show ?thesis
      proof (cases "map_of (replicators st) name")
        case None
        with act w show ?thesis by (simp add: harmless_ret)
      next
        case (Some r)
        show ?thesis
        proof (cases ev)
          case (EmitNext x)
          show ?thesis
          proof (cases "r_next r")
            case PushToBuffer
            with act Some EmitNext w show ?thesis by (simp add: harmless_push_next)
          next
            case WriteToProxy
            from w Some WriteToProxy have "name \<noteq> n" by (rule waiting_not_forwarding)
            then have "filter (is_next n) (fst (write_next px name x)) = []"
              by (rule is_next_write_next)
            moreover from 1(1) [OF act Some EmitNext WriteToProxy] w
            have "harmless n vs (deliver_all c px echoes st) st" by simp
            ultimately have "harmless n vs
                (andThen (write_next px name x) (\<lambda>_. deliver_all c px echoes st)) st"
              by (rule harmless_after)
            with act Some EmitNext WriteToProxy show ?thesis by simp
          qed
        next
          case (EmitError err)
          show ?thesis
          proof (cases "r_error r")
            case PushToBuffer
            with act Some EmitError w show ?thesis by (simp add: harmless_push_error)
          next
            case WriteToProxy
            have "filter (is_next n) (fst (write_error c px name err)) = []"
              by (rule is_next_write_error)
            moreover from 1(2) [OF act Some EmitError WriteToProxy] w
            have "harmless n vs (deliver_all c px echoes st) st" by simp
            ultimately have "harmless n vs
                (andThen (write_error c px name err) (\<lambda>_. deliver_all c px echoes st)) st"
              by (rule harmless_after)
            with act Some EmitError WriteToProxy show ?thesis by simp
          qed
        next
          case EmitComplete
          with act Some w show ?thesis by (simp add: harmless_ret)
        qed
      qed
    qed
  qed
next
  case (2 c px st)
  show ?case by (simp add: harmless_ret)
next
  case (3 c px e echoes st)
  show ?case
  proof
    assume w: "waiting n vs st"
    with 3(1) have "harmless n vs (deliver c px e st) st" by simp
    moreover from 3(2) have "\<And>st'. waiting n vs st' \<Longrightarrow> harmless n vs (deliver_all c px echoes st') st'"
      by simp
    ultimately have "harmless n vs (andThen (deliver c px e st) (deliver_all c px echoes)) st"
      by (rule harmless_then)
    then show "harmless n vs (deliver_all c px (e # echoes) st) st" by simp
  qed
qed

lemma push_next_buffers_only:
  "snd (push_next m x st) = Inr st' \<Longrightarrow> buffers_only st st'"
  by (auto simp: push_next_def buffers_only_def ret_def raise_def split: option.splits)

lemma push_error_buffers_only:
  "snd (push_error m err st) = Inr st' \<Longrightarrow> buffers_only st st'"
  by (auto simp: push_error_def buffers_only_def ret_def raise_def split: option.splits)

lemma andThen_snd_Inr:
  "snd (andThen m f) = Inr y \<Longrightarrow> \<exists>x. snd m = Inr x \<and> snd (f x) = Inr y"
  by (cases m) (auto simp: andThen_def split: sum.splits prod.splits)

lemma deliver_buffers_only:
  "\<forall>st'. snd (deliver c px e st) = Inr st' \<longrightarrow> buffers_only st st'"
  "\<forall>st'. snd (deliver_all c px es st) = Inr st' \<longrightarrow> buffers_only st st'"
proof (induction c px e st and c px es st rule: deliver_deliver_all.induct)
  case (1 c px name ev echoes st)
  show ?case
  proof (intro allI impI)
    fix st'
    assume r: "snd (deliver c px (Echo name ev echoes) st) = Inr st'"
    show "buffers_only st st'"
    proof (cases "name \<in> set (active st)")
      case False
      with r show ?thesis by (simp add: ret_def)
    next
      case act: True
      show ?thesis
      proof (cases "map_of (replicators st) name")
        case None
        with act r show ?thesis by (simp add: ret_def)
      next
        case (Some rep)
        show ?thesis
        proof (cases ev)
          case (EmitNext x)
          show ?thesis
          proof (cases "r_next rep")
            case PushToBuffer
            with act Some EmitNext r show ?thesis by (simp add: push_next_buffers_only)
          next
            case WriteToProxy
            with act Some EmitNext r have
              "snd (andThen (write_next px name x) (\<lambda>_. deliver_all c px echoes st)) = Inr st'"
              by simp
            then have "snd (deliver_all c px echoes st) = Inr st'"
              by (auto dest: andThen_snd_Inr)
            with 1(1) [OF act Some EmitNext WriteToProxy] show ?thesis by simp
          qed
        next
          case (EmitError err)
          show ?thesis
          proof (cases "r_error rep")
            case PushToBuffer
            with act Some EmitError r show ?thesis by (simp add: push_error_buffers_only)
          next
            case WriteToProxy
            with act Some EmitError r have
              "snd (andThen (write_error c px name err) (\<lambda>_. deliver_all c px echoes st)) = Inr st'"
              by simp
            then have "snd (deliver_all c px echoes st) = Inr st'"
              by (auto dest: andThen_snd_Inr)
            with 1(2) [OF act Some EmitError WriteToProxy] show ?thesis by simp
          qed
        next
          case EmitComplete
          with act Some r show ?thesis by (simp add: ret_def)
        qed
      qed
    qed
  qed
next
  case (2 c px st)
  show ?case by (simp add: ret_def)
next
  case (3 c px e echoes st)
  show ?case
  proof (intro allI impI)
    fix st'
    assume "snd (deliver_all c px (e # echoes) st) = Inr st'"
    then obtain st1 where "snd (deliver c px e st) = Inr st1"
        "snd (deliver_all c px echoes st1) = Inr st'"
      by (auto dest: andThen_snd_Inr)
    with 3 show "buffers_only st st'" by (blast intro: buffers_only_trans)
  qed
qed

subsection \<open>The flush with such subscribers\<close>

lemma flush_each_buffers_only:
  "snd (flush_each inject react c px i xs st) = Inr st' \<Longrightarrow> buffers_only st st'"
proof (induction xs arbitrary: i st)
  case Nil
  then show ?case by (simp add: ret_def)
next
  case (Cons x xs)
  from Cons.prems obtain st1 where
    "snd (deliver_all c px (react i) st) = Inr st1"
    "snd (flush_each inject react c px (Suc i) xs st1) = Inr st'"
    by (auto dest!: andThen_snd_Inr)
  with Cons.IH deliver_buffers_only(2) show ?case by (blast intro: buffers_only_trans)
qed

lemma flush_each_harmless:
  assumes "\<And>x. filter (is_next n) (fst (inject x)) = []"
  shows "waiting n vs st \<Longrightarrow> harmless n vs (flush_each inject react c px i xs st) st"
proof (induction xs arbitrary: i st)
  case Nil
  then show ?case by (simp add: harmless_ret)
next
  case (Cons x xs)
  from Cons.prems deliver_harmless(2) have "harmless n vs (deliver_all c px (react i) st) st"
    by blast
  then have "harmless n vs
      (andThen (deliver_all c px (react i) st) (flush_each inject react c px (Suc i) xs)) st"
    using Cons.IH by (rule harmless_then)
  with assms [of x] have "harmless n vs (andThen (inject x) (\<lambda>_.
      andThen (deliver_all c px (react i) st) (flush_each inject react c px (Suc i) xs))) st"
    by (rule harmless_after)
  then show ?case by simp
qed

lemma flush_each_own:
  assumes "js_lookup px n = Own p"
  shows "waiting n vs st \<Longrightarrow>
     snd (flush_each (write_next px n) react c px i xs st) = Inr st' \<Longrightarrow>
     filter (is_next n) (fst (flush_each (write_next px n) react c px i xs st))
       = map (ProxyNext n) xs
     \<and> waiting n vs st' \<and> buffers_only st st'"
proof (induction xs arbitrary: i st)
  case Nil
  then show ?case by (simp add: ret_def)
next
  case (Cons x xs)
  from assms have w: "write_next px n x = ([ProxyNext n x], Inr ())"
    by (simp add: write_next_eq)
  from Cons.prems(2) obtain st1 where
    d: "snd (deliver_all c px (react i) st) = Inr st1"
    and f: "snd (flush_each (write_next px n) react c px (Suc i) xs st1) = Inr st'"
    by (auto dest!: andThen_snd_Inr)
  from Cons.prems(1) deliver_harmless(2) have "harmless n vs (deliver_all c px (react i) st) st"
    by blast
  with d have h: "filter (is_next n) (fst (deliver_all c px (react i) st)) = []"
    "waiting n vs st1" "buffers_only st st1"
    by (simp_all add: harmless_def)
  from Cons.IH [OF h(2) f] have
    ih: "filter (is_next n) (fst (flush_each (write_next px n) react c px (Suc i) xs st1))
       = map (ProxyNext n) xs" "waiting n vs st'" "buffers_only st1 st'"
    by simp_all
  obtain t1 where t1: "deliver_all c px (react i) st = (t1, Inr st1)"
    using d by (cases "deliver_all c px (react i) st") simp
  obtain t2 r2 where t2: "flush_each (write_next px n) react c px (Suc i) xs st1 = (t2, r2)"
    by (cases "flush_each (write_next px n) react c px (Suc i) xs st1")
  from w t1 t2 have "fst (flush_each (write_next px n) react c px i (x # xs) st)
      = ProxyNext n x # t1 @ t2"
    by (simp add: andThen_def)
  with h(1) ih t1 t2 h(3) show ?case
    by (auto intro: buffers_only_trans)
qed

lemma flush_and_swap_in_parts:
  assumes "snd (flush_and_swap_in env c px m st) = Inr st'"
  shows "\<exists>bs ns es st1 bs1 ns1 es1 st2.
     buffers st = Some bs \<and> map_of bs m = Some (ns, es)
   \<and> snd (flush_each (write_next px m) (to_next env m) c px 0 ns st) = Inr st1
   \<and> buffers st1 = Some bs1 \<and> map_of bs1 m = Some (ns1, es1)
   \<and> snd (flush_each (write_error c px m) (to_error env m) c px 0 es1 st1) = Inr st2
   \<and> st' = st2\<lparr> replicators := obj_set (replicators st2) m forwarding \<rparr>
   \<and> fst (flush_and_swap_in env c px m st) =
       fst (flush_each (write_next px m) (to_next env m) c px 0 ns st)
       @ fst (flush_each (write_error c px m) (to_error env m) c px 0 es1 st1)"
proof -
  from assms obtain bs where bs: "buffers st = Some bs"
    by (cases "buffers st") (simp_all add: flush_and_swap_in_def raise_def)
  from assms bs obtain ns es where b: "map_of bs m = Some (ns, es)"
    by (cases "map_of bs m") (auto simp: flush_and_swap_in_def raise_def)
  let ?A = "flush_each (write_next px m) (to_next env m) c px 0 ns st"
  obtain tA rA where a: "?A = (tA, rA)" by (cases ?A)
  from assms bs b a obtain st1 where st1: "rA = Inr st1"
    by (cases rA) (simp_all add: flush_and_swap_in_def andThen_def)
  from assms bs b a st1 obtain bs1 where bs1: "buffers st1 = Some bs1"
    by (cases "buffers st1") (simp_all add: flush_and_swap_in_def andThen_def raise_def)
  from assms bs b a st1 bs1 obtain ns1 es1 where b1: "map_of bs1 m = Some (ns1, es1)"
    by (cases "map_of bs1 m") (auto simp: flush_and_swap_in_def andThen_def raise_def)
  let ?B = "flush_each (write_error c px m) (to_error env m) c px 0 es1 st1"
  obtain tB rB where bb: "?B = (tB, rB)" by (cases ?B)
  from assms bs b a st1 bs1 b1 bb obtain st2 where st2: "rB = Inr st2"
    by (cases rB) (simp_all add: flush_and_swap_in_def andThen_def)
  from assms bs b a st1 bs1 b1 bb st2 have
    "st' = st2\<lparr> replicators := obj_set (replicators st2) m forwarding \<rparr>"
    "fst (flush_and_swap_in env c px m st) = tA @ tB"
    by (auto simp: flush_and_swap_in_def andThen_def raise_def ret_def forwarding_def
          split: option.splits)
  with bs b a st1 bs1 b1 bb st2 show ?thesis by auto
qed

lemma flush_and_swap_in_state:
  assumes "snd (flush_and_swap_in env c px m st) = Inr st'"
  shows "replicators st' = obj_set (replicators st) m forwarding \<and> active st' = active st
       \<and> sinkNames st' = sinkNames st \<and> subscriptions st' = subscriptions st"
proof -
  from flush_and_swap_in_parts [OF assms] obtain ns es1 st1 st2 where
    p: "snd (flush_each (write_next px m) (to_next env m) c px 0 ns st) = Inr st1"
      "snd (flush_each (write_error c px m) (to_error env m) c px 0 es1 st1) = Inr st2"
      "st' = st2\<lparr> replicators := obj_set (replicators st2) m forwarding \<rparr>"
    by blast
  from p(1,2) have "buffers_only st st2"
    by (blast intro: buffers_only_trans flush_each_buffers_only)
  with p(3) show ?thesis by (auto dest: buffers_only_fields)
qed

lemma waiting_swap_other:
  "waiting n vs st \<Longrightarrow> m \<noteq> n \<Longrightarrow>
   waiting n vs (st\<lparr> replicators := obj_set (replicators st) m r \<rparr>)"
  by (auto simp: waiting_def map_of_obj_set)

lemma waiting_buffer:
  "waiting n vs st \<Longrightarrow> buffers st = Some bs \<Longrightarrow> map_of bs n = Some (ns, es) \<Longrightarrow>
   prefix vs ns \<and> waiting n ns st"
  by (auto simp: waiting_def)

lemma flush_and_swap_in_other:
  assumes "waiting n vs st" and "m \<noteq> n"
    and "snd (flush_and_swap_in env c px m st) = Inr st'"
  shows "filter (is_next n) (fst (flush_and_swap_in env c px m st)) = [] \<and> waiting n vs st'"
proof -
  from flush_and_swap_in_parts [OF assms(3)] obtain ns es1 st1 st2 where
    p: "snd (flush_each (write_next px m) (to_next env m) c px 0 ns st) = Inr st1"
      "snd (flush_each (write_error c px m) (to_error env m) c px 0 es1 st1) = Inr st2"
      "st' = st2\<lparr> replicators := obj_set (replicators st2) m forwarding \<rparr>"
      "fst (flush_and_swap_in env c px m st) =
         fst (flush_each (write_next px m) (to_next env m) c px 0 ns st)
         @ fst (flush_each (write_error c px m) (to_error env m) c px 0 es1 st1)"
    by blast
  from assms(2) have "\<And>x. filter (is_next n) (fst (write_next px m x)) = []"
    by (rule is_next_write_next)
  from flush_each_harmless [of n "write_next px m", OF this assms(1)] p(1) have
    a: "filter (is_next n) (fst (flush_each (write_next px m) (to_next env m) c px 0 ns st)) = []"
      "waiting n vs st1"
    by (simp_all add: harmless_def)
  from flush_each_harmless [of n "write_error c px m", OF is_next_write_error a(2)] p(2) have
    b: "filter (is_next n) (fst (flush_each (write_error c px m) (to_error env m) c px 0 es1 st1)) = []"
      "waiting n vs st2"
    by (simp_all add: harmless_def)
  from b(2) assms(2) p(3) have "waiting n vs st'" by (simp add: waiting_swap_other)
  with a(1) b(1) p(4) show ?thesis by simp
qed

lemma flush_and_swap_in_own:
  assumes "waiting n vs st" and "js_lookup px n = Own p"
    and "snd (flush_and_swap_in env c px n st) = Inr st'"
  shows "prefix (map (ProxyNext n) vs) (filter (is_next n) (fst (flush_and_swap_in env c px n st)))"
proof -
  from flush_and_swap_in_parts [OF assms(3)] obtain bs ns es es1 st1 st2 where
    p: "buffers st = Some bs" "map_of bs n = Some (ns, es)"
      "snd (flush_each (write_next px n) (to_next env n) c px 0 ns st) = Inr st1"
      "snd (flush_each (write_error c px n) (to_error env n) c px 0 es1 st1) = Inr st2"
      "fst (flush_and_swap_in env c px n st) =
         fst (flush_each (write_next px n) (to_next env n) c px 0 ns st)
         @ fst (flush_each (write_error c px n) (to_error env n) c px 0 es1 st1)"
    by blast
  from waiting_buffer [OF assms(1) p(1,2)] have pre: "prefix vs ns" and w: "waiting n ns st"
    by simp_all
  from flush_each_own [OF assms(2) w p(3)] have
    a: "filter (is_next n) (fst (flush_each (write_next px n) (to_next env n) c px 0 ns st))
        = map (ProxyNext n) ns" "waiting n ns st1"
    by simp_all
  from flush_each_harmless [of n "write_error c px n", OF is_next_write_error a(2)] have
    "filter (is_next n) (fst (flush_each (write_error c px n) (to_error env n) c px 0 es1 st1)) = []"
    by (simp add: harmless_def)
  with a(1) p(5) have "filter (is_next n) (fst (flush_and_swap_in env c px n st))
      = map (ProxyNext n) ns"
    by simp
  with pre show ?thesis by (simp add: map_mono_prefix)
qed

lemma foldRes_step:
  assumes "snd (foldRes f (x # xs) st) = Inr st'"
  shows "\<exists>st1. snd (f x st) = Inr st1 \<and> snd (foldRes f xs st1) = Inr st'
     \<and> fst (foldRes f (x # xs) st) = fst (f x st) @ fst (foldRes f xs st1)"
proof -
  obtain t1 r1 where a: "f x st = (t1, r1)" by (cases "f x st")
  with assms obtain st1 where r1: "r1 = Inr st1" by (cases r1) (simp_all add: andThen_def)
  obtain t2 r2 where b: "foldRes f xs st1 = (t2, r2)" by (cases "foldRes f xs st1")
  with a r1 assms show ?thesis by (auto simp: andThen_def)
qed

lemma flush_all_in_prefix:
  "n \<in> set names \<Longrightarrow> waiting n vs st \<Longrightarrow> js_lookup px n = Own p \<Longrightarrow>
   snd (foldRes (flush_and_swap_in env c px) names st) = Inr st' \<Longrightarrow>
   prefix (map (ProxyNext n) vs)
     (filter (is_next n) (fst (foldRes (flush_and_swap_in env c px) names st)))"
proof (induction names arbitrary: st)
  case Nil
  then show ?case by simp
next
  case (Cons m names)
  from foldRes_step [OF Cons.prems(4)] obtain st1 where
    s: "snd (flush_and_swap_in env c px m st) = Inr st1"
      "snd (foldRes (flush_and_swap_in env c px) names st1) = Inr st'"
      "fst (foldRes (flush_and_swap_in env c px) (m # names) st)
         = fst (flush_and_swap_in env c px m st)
           @ fst (foldRes (flush_and_swap_in env c px) names st1)"
    by blast
  show ?case
  proof (cases "m = n")
    case True
    from flush_and_swap_in_own [OF Cons.prems(2,3)] s(1) True have
      "prefix (map (ProxyNext n) vs) (filter (is_next n) (fst (flush_and_swap_in env c px m st)))"
      by simp
    then show ?thesis unfolding s(3) by (simp add: prefix_prefix)
  next
    case False
    from flush_and_swap_in_other [OF Cons.prems(2) False s(1)] have
      o: "filter (is_next n) (fst (flush_and_swap_in env c px m st)) = []" "waiting n vs st1"
      by simp_all
    from False Cons.prems(1) have "n \<in> set names" by simp
    from Cons.IH [OF this o(2) Cons.prems(3) s(2)] o(1) show ?thesis
      unfolding s(3) by simp
  qed
qed

lemma flush_all_in_state:
  "snd (foldRes (flush_and_swap_in env c px) names st) = Inr st' \<Longrightarrow>
   active st' = active st \<and> sinkNames st' = sinkNames st \<and> subscriptions st' = subscriptions st
   \<and> (\<forall>k. map_of (replicators st') k =
         (if k \<in> set names then Some forwarding else map_of (replicators st) k))"
proof (induction names arbitrary: st)
  case Nil
  then show ?case by (simp add: ret_def)
next
  case (Cons m names)
  from foldRes_step [OF Cons.prems] obtain st1 where
    s: "snd (flush_and_swap_in env c px m st) = Inr st1"
      "snd (foldRes (flush_and_swap_in env c px) names st1) = Inr st'"
    by blast
  from flush_and_swap_in_state [OF s(1)] Cons.IH [OF s(2)] show ?case
    by (auto simp: map_of_obj_set)
qed

subsection \<open>The whole of replicateMany with such subscribers\<close>

lemma replicateMany_in_returns:
  assumes "distinct (keys sks)"
    and "map_of sks n = Some s"
    and "map_of px n = Some p"
    and "replicateMany_in env c sks px = (tr, Inr st)"
  shows "prefix (map (ProxyNext n) (next_values (on_subscribe s))) (filter (is_next n) tr)
       \<and> buffers st = None
       \<and> active st = sink_names sks px
       \<and> (\<forall>k. map_of (replicators st) k =
             (if k \<in> set (sink_names sks px) then Some forwarding else None))"
proof -
  let ?names = "sink_names sks px"
  let ?st0 = "init_replication ?names"
  from assms(1) have dn: "distinct ?names" by (simp add: sink_names_def)
  have inks: "\<forall>n \<in> set ?names. map_of sks n \<noteq> None"
    by (auto simp: sink_names_def keys_def map_of_eq_None_iff)
  obtain bs0 where bs0: "buffers ?st0 = Some bs0"
      "\<forall>n \<in> set ?names. map_of bs0 n = Some ([], [])"
    by (simp add: init_replication_def map_of_foldl_obj_set)
  have r0: "\<forall>n. map_of (replicators ?st0) n = (if n \<in> set ?names then Some buffering else None)"
    by (simp add: init_replication_def map_of_foldl_obj_set buffering_def)
  from subscribe_all [OF dn inks _ bs0, of c px] r0 obtain bs1 where
    p1: "foldRes (subscribe_sink c px sks) ?names ?st0 =
             (map Subscribe ?names,
              Inr (?st0\<lparr> buffers := Some bs1, subscriptions := subscriptions ?st0 @ ?names,
                       active := active ?st0 @ ?names \<rparr>))"
      "\<forall>n. map_of bs1 n =
                 (if n \<in> set ?names
                  then Some (next_values (emissions_of sks n), error_values (emissions_of sks n))
                  else map_of bs0 n)"
    by auto
  let ?st1 = "?st0\<lparr> buffers := Some bs1, subscriptions := subscriptions ?st0 @ ?names,
                       active := active ?st0 @ ?names \<rparr>"
  obtain t2 r2 where f2: "foldRes (flush_and_swap_in env c px) ?names ?st1 = (t2, r2)"
    by (cases "foldRes (flush_and_swap_in env c px) ?names ?st1")
  have whole: "replicateMany_in env c sks px =
      (map Subscribe ?names @ t2,
       case r2 of Inl e \<Rightarrow> Inl e | Inr st' \<Rightarrow> Inr (st'\<lparr> buffers := None \<rparr>))"
    using p1(1) f2
    by (simp add: replicateMany_in_def sink_names_def [symmetric] Let_def andThen_def ret_def
          split: sum.splits)
  with assms(4) obtain st' where
    st': "r2 = Inr st'" "st = st'\<lparr> buffers := None \<rparr>" "tr = map Subscribe ?names @ t2"
    by (cases r2) auto
  from assms(1-3) have mem: "n \<in> set ?names" by (simp add: replicated_name)
  from assms(3) have own: "js_lookup px n = Own p" by (simp add: js_lookup_def)
  from mem p1(2) r0 assms(2) have w: "waiting n (next_values (on_subscribe s)) ?st1"
    by (simp add: waiting_def emissions_of_def buffering_def)
  from f2 st'(1) have r: "snd (foldRes (flush_and_swap_in env c px) ?names ?st1) = Inr st'"
    by simp
  from flush_all_in_prefix [OF mem w own r] f2 have
    "prefix (map (ProxyNext n) (next_values (on_subscribe s))) (filter (is_next n) t2)"
    by simp
  with st'(3) have a: "prefix (map (ProxyNext n) (next_values (on_subscribe s)))
      (filter (is_next n) tr)"
    by simp
  from flush_all_in_state [OF r] r0 st'(2) have
    "active st = ?names"
    "\<forall>k. map_of (replicators st) k = (if k \<in> set ?names then Some forwarding else None)"
    by (simp_all add: init_replication_def)
  with a st'(2) show ?thesis by simp
qed

section \<open>The claims\<close>

subsection \<open>C1: buffered values reach the proxy, in order, once\<close>

text \<open>
  What a sink emits while the flush runs, in two examples. In the first the sink
  \<^verbatim>\<open>A\<close> replays \<^verbatim>\<open>0\<close> when it is subscribed to; the driver answers the
  injection of \<^verbatim>\<open>0\<close> at once and the sink emits \<^verbatim>\<open>1\<close> before the injection
  returns. The replicator still pushes to the buffer, \<^verbatim>\<open>forEach\<close> has fixed its
  range, and the buffers are released at line 180: \<^verbatim>\<open>1\<close> is never injected.
\<close>

lemma value_emitted_during_flush_is_dropped:
  "replicateMany_in echoing None replaying_sinks early_proxies =
     ([Subscribe ''A'', ProxyNext ''A'' (Number 0)],
      Inr \<lparr> sinkNames = [''A''], buffers = None, replicators = [(''A'', forwarding)],
            subscriptions = [''A''], active = [''A''] \<rparr>)"
  by (simp add: replicateMany_in_def flush_and_swap_in_def echoing_def replaying_sinks_def
        early_proxies_def engine_eval)

text \<open>
  In the second there are two sinks; the driver \<^verbatim>\<open>B\<close> answers the injection of the
  buffered \<^verbatim>\<open>2\<close> at once and the sink \<^verbatim>\<open>A\<close>, whose handlers have been swapped
  by then, emits \<^verbatim>\<open>9\<close>: it is injected during \<^verbatim>\<open>run()\<close>, after the buffered
  \<^verbatim>\<open>1\<close>.
\<close>

lemma value_emitted_after_swap_is_forwarded:
  "replicateMany_in crossing None crossing_sinks early_proxies =
     ([Subscribe ''A'', Subscribe ''B'', ProxyNext ''A'' (Number 1), ProxyNext ''B'' (Number 2),
       ProxyNext ''A'' (Number 9)],
      Inr \<lparr> sinkNames = [''A'', ''B''], buffers = None,
            replicators = [(''A'', forwarding), (''B'', forwarding)],
            subscriptions = [''A'', ''B''], active = [''A'', ''B''] \<rparr>)"
  by (simp add: replicateMany_in_def flush_and_swap_in_def crossing_def crossing_sinks_def
        early_proxies_def engine_eval)

text \<open>
  C1 (amended). For a name that has both a sink and a proxy, when \<^verbatim>\<open>run()\<close>
  returns, the values the sink emitted to the replicator while it was being subscribed,
  inside \<^verbatim>\<open>run()\<close>, have been injected into the proxy by \<^verbatim>\<open>_n\<close>, in the order
  of arrival and ahead of any other value; the buffers are released and the
  replicator's \<^verbatim>\<open>next\<close> writes to the proxy directly, one injection for each later
  value. This holds whatever the subscribers of the proxies do. Where they make no sink
  emit before an injection of the flush returns (\<open>to_next\<close> and \<open>to_error\<close> are
  empty throughout), the values injected during \<^verbatim>\<open>run()\<close> are, whatever its
  outcome, an initial part of those values, and when \<^verbatim>\<open>run()\<close> returns they are
  all of them, each once. What the sink emitted before \<^verbatim>\<open>run()\<close> subscribed is not
  covered: the engine sees it only if the sink itself replays it on subscription. Nor
  is what a sink emits while the flush runs.
\<close>

theorem buffered_values_flushed_once:
  assumes "distinct (keys sks)"
    and "map_of sks n = Some s"
    and "map_of px n = Some p"
    and "replicateMany_in env c sks px = (tr, r)"
  shows "(\<forall>st. r = Inr st \<longrightarrow>
            prefix (map (ProxyNext n) (next_values (on_subscribe s))) (filter (is_next n) tr)
          \<and> buffers st = None
          \<and> (\<forall>x. sink_emits c px n (EmitNext x) st = ([ProxyNext n x], Inr st)))
       \<and> ((\<forall>m i. to_next env m i = [] \<and> to_error env m i = []) \<longrightarrow>
            prefix (filter (is_next n) tr) (map (ProxyNext n) (next_values (on_subscribe s)))
          \<and> (\<forall>st. r = Inr st \<longrightarrow>
                filter (is_next n) tr = map (ProxyNext n) (next_values (on_subscribe s))))"
proof -
  have general: "prefix (map (ProxyNext n) (next_values (on_subscribe s))) (filter (is_next n) tr)
      \<and> buffers st = None
      \<and> (\<forall>x. sink_emits c px n (EmitNext x) st = ([ProxyNext n x], Inr st))"
    if "r = Inr st" for st
  proof -
    from assms(4) that have run: "replicateMany_in env c sks px = (tr, Inr st)" by simp
    note r = replicateMany_in_returns [OF assms(1-3) run]
    from assms(1-3) have mem: "n \<in> set (sink_names sks px)" by (simp add: replicated_name)
    from assms(3) have own: "js_lookup px n = Own p" by (simp add: js_lookup_def)
    from r mem have "sink_emits c px n (EmitNext x) st = ([ProxyNext n x], Inr st)" for x
      by (intro sink_emits_forwarding(1) [OF _ _ own]) simp_all
    with r show ?thesis by simp
  qed
  have calm: "prefix (filter (is_next n) tr) (map (ProxyNext n) (next_values (on_subscribe s)))
      \<and> (\<forall>st. r = Inr st \<longrightarrow>
            filter (is_next n) tr = map (ProxyNext n) (next_values (on_subscribe s)))"
    if q: "\<forall>m i. to_next env m i = [] \<and> to_error env m i = []"
  proof -
    from q assms(4) have run: "replicateMany c sks px = (tr, r)"
      by (simp add: replicateMany_in_quiet)
    from replicateMany_trace [OF assms(1), of c px] run have
      pre: "prefix tr (run_effects c sks px)"
      and all: "\<forall>st. r = Inr st \<longrightarrow> tr = run_effects c sks px"
      by simp_all
    from pre have "prefix (filter (is_next n) tr) (filter (is_next n) (run_effects c sks px))"
      by (rule filter_mono_prefix)
    with all show ?thesis by (auto simp: is_next_run_effects [OF assms(1-3)])
  qed
  from general calm show ?thesis by blast
qed

theorem buffered_values_flushed_once_witness:
  "distinct (keys interleaved_sinks)
   \<and> map_of interleaved_sinks ''A''
       = Some (Sink [EmitNext (Number 1), EmitError (Str ''boom''), EmitNext (Number 2),
                     EmitComplete])
   \<and> map_of early_proxies ''A'' = Some 0
   \<and> (\<forall>m i. to_next quiet m i = [] \<and> to_error quiet m i = [])
   \<and> replicateMany_in quiet (Some (Console True True)) interleaved_sinks early_proxies =
       ([Subscribe ''A'', ProxyNext ''A'' (Number 1), ProxyNext ''A'' (Number 2),
         ConsoleError (Str ''boom''), ProxyError ''A'' (Str ''boom'')],
        Inr \<lparr> sinkNames = [''A''], buffers = None, replicators = [(''A'', forwarding)],
              subscriptions = [''A''], active = [''A''] \<rparr>)
   \<and> filter (is_next ''A'')
         [Subscribe ''A'', ProxyNext ''A'' (Number 1), ProxyNext ''A'' (Number 2),
          ConsoleError (Str ''boom''), ProxyError ''A'' (Str ''boom'')]
       = [ProxyNext ''A'' (Number 1), ProxyNext ''A'' (Number 2)]
   \<and> sink_emits (Some (Console True True)) early_proxies ''A'' (EmitNext (Number 9))
         \<lparr> sinkNames = [''A''], buffers = None, replicators = [(''A'', forwarding)],
           subscriptions = [''A''], active = [''A''] \<rparr>
       = ([ProxyNext ''A'' (Number 9)],
          Inr \<lparr> sinkNames = [''A''], buffers = None, replicators = [(''A'', forwarding)],
                subscriptions = [''A''], active = [''A''] \<rparr>)
   \<and> map_of crossing_sinks ''A'' = Some (Sink [EmitNext (Number 1)])
   \<and> replicateMany_in crossing None crossing_sinks early_proxies =
       ([Subscribe ''A'', Subscribe ''B'', ProxyNext ''A'' (Number 1),
         ProxyNext ''B'' (Number 2), ProxyNext ''A'' (Number 9)],
        Inr \<lparr> sinkNames = [''A'', ''B''], buffers = None,
              replicators = [(''A'', forwarding), (''B'', forwarding)],
              subscriptions = [''A'', ''B''], active = [''A'', ''B''] \<rparr>)
   \<and> prefix [ProxyNext ''A'' (Number 1)]
         (filter (is_next ''A'')
            [Subscribe ''A'', Subscribe ''B'', ProxyNext ''A'' (Number 1),
             ProxyNext ''B'' (Number 2), ProxyNext ''A'' (Number 9)])"
proof -
  have d: "distinct (keys interleaved_sinks)" by (simp add: interleaved_sinks_def keys_def)
  have s: "map_of interleaved_sinks ''A''
       = Some (Sink [EmitNext (Number 1), EmitError (Str ''boom''), EmitNext (Number 2),
                     EmitComplete])"
    by (simp add: interleaved_sinks_def)
  have p: "map_of early_proxies ''A'' = Some 0" by (simp add: early_proxies_def)
  have q: "\<forall>m i. to_next quiet m i = [] \<and> to_error quiet m i = []" by (simp add: quiet_def)
  have e: "replicateMany_in quiet (Some (Console True True)) interleaved_sinks early_proxies =
       ([Subscribe ''A'', ProxyNext ''A'' (Number 1), ProxyNext ''A'' (Number 2),
         ConsoleError (Str ''boom''), ProxyError ''A'' (Str ''boom'')],
        Inr \<lparr> sinkNames = [''A''], buffers = None, replicators = [(''A'', forwarding)],
              subscriptions = [''A''], active = [''A''] \<rparr>)"
    using interleaved_run by (simp add: replicateMany_in_quiet [OF q])
  have d2: "distinct (keys crossing_sinks)" by (simp add: crossing_sinks_def keys_def)
  have s2: "map_of crossing_sinks ''A'' = Some (Sink [EmitNext (Number 1)])"
    by (simp add: crossing_sinks_def)
  from buffered_values_flushed_once [OF d s p e]
    buffered_values_flushed_once [OF d2 s2 p value_emitted_after_swap_is_forwarded]
    d s p q e s2 value_emitted_after_swap_is_forwarded
  show ?thesis by simp
qed

text \<open>
  C1 as stated fails. \<^verbatim>\<open>main\<close> returns a hot sink for \<^verbatim>\<open>A\<close> and the sink emits
  \<^verbatim>\<open>'x'\<close> while \<^verbatim>\<open>main\<close> runs, before \<^verbatim>\<open>run()\<close>: no replicator is
  subscribed, nothing happens. \<^verbatim>\<open>run()\<close> then subscribes, finds empty buffers, and
  the proxy of \<^verbatim>\<open>A\<close> is never given \<^verbatim>\<open>'x'\<close>.
\<close>

theorem value_pushed_before_run_is_lost:
  "setup_cycle Returns 0 None (ArgFunction (\<lambda>srcs. Returns early_sinks) :: (main_fn, unit) arg)
     (ArgObject early_drivers :: (unit, driver obj) arg)
   = ([CreateProxy 0, CreateProxy 1, CallDriver ''A'' (Own 0), CallDriver ''B'' (Own 1), CallMain],
      Inr (early_program, None))
   \<and> sink_emits None (sinkProxies early_program) ''A'' (EmitNext (Str ''x'')) not_running
       = ([], Inr not_running)
   \<and> program_run None early_program = ([Subscribe ''A''], Inr early_state)
   \<and> filter (is_next ''A'') [Subscribe ''A''] = []"
  by (simp add: early_setup early_run)
     (simp add: engine_eval not_running_def early_program_def early_proxies_def)

subsection \<open>C2: completion is injected by dispose only\<close>

text \<open>
  C2 (amended). Neither \<^verbatim>\<open>setup\<close>, nor \<^verbatim>\<open>run()\<close>, nor any emission of a sink
  after it (its completion included: the replicator's \<^verbatim>\<open>complete\<close> does nothing)
  injects a completion into a proxy. A \<^verbatim>\<open>dispose\<close> that returns injects it exactly
  once into every proxy whose name has a sink, and not at all into a proxy whose name
  has none: \<^verbatim>\<open>disposeReplication\<close> goes through \<^verbatim>\<open>sinkNames\<close>, not through the
  proxies.
\<close>

theorem completion_only_on_dispose:
  assumes "distinct (keys (sinks prog))"
    and "setup_cycle adapt h w main drivers = (tr0, Inr (prog, w'))"
    and "program_run c prog = (tr1, Inr st)"
    and "dispose prog st = (tr3, Inr st')"
  shows "(\<forall>n. ProxyComplete n \<notin> set tr0 \<and> ProxyComplete n \<notin> set tr1)
       \<and> (\<forall>n m ev. ProxyComplete n \<notin> set (fst (sink_emits c (sinkProxies prog) m ev st)))
       \<and> (\<forall>n p. map_of (sinkProxies prog) n = Some p \<longrightarrow>
             count_list tr3 (ProxyComplete n) = (if n \<in> set (keys (sinks prog)) then 1 else 0))"
proof -
  let ?names = "sink_names (sinks prog) (sinkProxies prog)"
  from setup_no_complete [of _ adapt h w main drivers] assms(2)
  have a: "\<forall>n. ProxyComplete n \<notin> set tr0" by simp
  from replicateMany_no_complete [OF assms(1), of _ c "sinkProxies prog"] assms(3)
  have b: "\<forall>n. ProxyComplete n \<notin> set tr1" by (simp add: program_run_def)
  from replicateMany_trace [OF assms(1), of c "sinkProxies prog"] assms(3) have
    st: "sinkNames st = ?names" "subscriptions st = ?names"
    by (simp_all add: program_run_def)
  from dispose_trace [of prog st] assms(4) have "tr3 = dispose_effects prog st" by simp
  with st have "count_list tr3 (ProxyComplete n) = (if n \<in> set ?names then 1 else 0)" for n
    by (simp add: dispose_effects_def count_complete distinct_sink_names [OF assms(1)])
  with a b show ?thesis
    by (simp add: sink_emits_no_complete proxy_replicated_iff)
qed

theorem completion_only_on_dispose_witness:
  "distinct (keys (sinks early_program))
   \<and> map_of (sinkProxies early_program) ''A'' = Some 0
   \<and> map_of (sinkProxies early_program) ''B'' = Some 1
   \<and> count_list [Unsubscribe ''A'', ProxyComplete ''A''] (ProxyComplete ''A'') = 1
   \<and> count_list [Unsubscribe ''A'', ProxyComplete ''A''] (ProxyComplete ''B'') = 0
   \<and> ProxyComplete ''A'' \<notin> set [Subscribe ''A'']"
proof -
  have d: "distinct (keys (sinks early_program))"
    by (simp add: early_program_def early_sinks_def keys_def)
  from completion_only_on_dispose [OF d early_setup early_run early_dispose] d
  show ?thesis
    by (simp add: early_program_def early_proxies_def)
qed

text \<open>
  C2 as stated fails: with drivers \<^verbatim>\<open>A\<close> and \<^verbatim>\<open>B\<close> and a sink for \<^verbatim>\<open>A\<close>
  only, \<^verbatim>\<open>dispose\<close> completes the proxy of \<^verbatim>\<open>A\<close> and never that of \<^verbatim>\<open>B\<close>.
\<close>

theorem proxy_without_sink_never_completes:
  "setup_cycle Returns 0 None (ArgFunction (\<lambda>srcs. Returns early_sinks) :: (main_fn, unit) arg)
     (ArgObject early_drivers :: (unit, driver obj) arg)
   = ([CreateProxy 0, CreateProxy 1, CallDriver ''A'' (Own 0), CallDriver ''B'' (Own 1), CallMain],
      Inr (early_program, None))
   \<and> program_run None early_program = ([Subscribe ''A''], Inr early_state)
   \<and> dispose early_program early_state =
       ([Unsubscribe ''A'', ProxyComplete ''A''], Inr (early_state\<lparr> active := [] \<rparr>))
   \<and> js_lookup (sinkProxies early_program) ''B'' = Own 1
   \<and> count_list [Unsubscribe ''A'', ProxyComplete ''A''] (ProxyComplete ''B'') = 0"
  by (simp add: early_setup early_run early_dispose)
     (simp add: early_program_def early_proxies_def js_lookup_def)

subsection \<open>C3: validation of the arguments\<close>



subsection \<open>C4: sink names without a driver\<close>

text \<open>
  C4. The code at the input \<^verbatim>\<open>drivers = {A: ...}\<close>, \<^verbatim>\<open>main = () => ({constructor:
  sink})\<close>, the sink emitting \<^verbatim>\<open>1\<close> when subscribed (\<open>phantom_program\<close> is the
  program \<^verbatim>\<open>setup\<close> returns for it, by \<open>phantom_setup\<close>). No driver is named
  \<^verbatim>\<open>constructor\<close> and \<^verbatim>\<open>sinkProxies\<close> has no such entry, but
  \<^verbatim>\<open>sinkProxies['constructor']\<close> is the inherited \<^verbatim>\<open>Object\<close>, which is truthy:
  the filter of line 139 keeps the name, \<^verbatim>\<open>run()\<close> subscribes to the sink, and the
  flush calls \<^verbatim>\<open>_n\<close> on something that has none: a \<^verbatim>\<open>TypeError\<close>.
\<close>

theorem inherited_name_is_replicated:
  "map_of (sinkProxies phantom_program) ''constructor'' = None
   \<and> js_lookup (sinkProxies phantom_program) ''constructor'' = Inherited
   \<and> program_run None phantom_program = ([Subscribe ''constructor''], Inl TypeError)"
  by (simp add: engine_eval phantom_program_def phantom_sinks_def)

text \<open>
  X1. For every other name what C4 says holds: a sink whose name has no driver and is
  not the name of a member of \<^verbatim>\<open>Object.prototype\<close> is never subscribed to, no value
  is injected into a proxy under its name, and after \<^verbatim>\<open>run()\<close> has returned
  nothing it emits has any effect.
\<close>

theorem ordinary_name_without_driver_is_inert:
  assumes "distinct (keys sks)"
    and "map_of px n = None"
    and "n \<notin> set object_prototype_names"
  shows "Subscribe n \<notin> set (fst (replicateMany c sks px))
       \<and> (\<forall>x. ProxyNext n x \<notin> set (fst (replicateMany c sks px)))
       \<and> (\<forall>st ev. snd (replicateMany c sks px) = Inr st \<longrightarrow>
             sink_emits c px n ev st = ([], Inr st))"
proof -
  from assms(2,3) have nn: "n \<notin> set (sink_names sks px)" by (rule not_replicated)
  have "filter (on_proxy n) (concat (map (flush_effects c sks) (sink_names sks px))) = []"
  proof (rule filter_concat_none)
    fix m
    assume "m \<in> set (sink_names sks px)"
    with nn have "m \<noteq> n" by auto
    then show "filter (on_proxy n) (flush_effects c sks m) = []"
      by (simp add: flush_effects_def on_proxy_flush_trace)
  qed
  then have "filter (on_proxy n) (run_effects c sks px) = []"
    by (simp add: run_effects_def)
  then have nx: "ProxyNext n x \<notin> set (run_effects c sks px)" for x
    by (metis filter_empty_conv on_proxy.simps(1))
  from nn have ns: "Subscribe n \<notin> set (run_effects c sks px)"
    by (auto simp: run_effects_def flush_effects_def flush_trace_def diagnostic_def)
  from replicateMany_trace [OF assms(1), of c px]
  have sub: "set (fst (replicateMany c sks px)) \<subseteq> set (run_effects c sks px)"
    by (auto dest: set_mono_prefix)
  have "sink_emits c px n ev st = ([], Inr st)"
    if "snd (replicateMany c sks px) = Inr st" for st ev
  proof -
    from replicateMany_trace [OF assms(1), of c px] that
    have "active st = sink_names sks px" by simp
    with nn show ?thesis by (intro sink_emits_inactive) simp
  qed
  with sub nx ns show ?thesis by blast
qed

theorem ordinary_name_without_driver_is_inert_witness:
  "distinct (keys interleaved_sinks)
   \<and> map_of early_proxies ''C'' = None
   \<and> ''C'' \<notin> set object_prototype_names
   \<and> Subscribe ''C'' \<notin> set (fst (replicateMany (Some (Console True True)) interleaved_sinks
                                  early_proxies))
   \<and> ProxyNext ''C'' (Number 3) \<notin> set (fst (replicateMany (Some (Console True True))
                                            interleaved_sinks early_proxies))"
proof -
  have d: "distinct (keys interleaved_sinks)" by (simp add: interleaved_sinks_def keys_def)
  have p: "map_of early_proxies ''C'' = None" by (simp add: early_proxies_def)
  have o: "''C'' \<notin> set object_prototype_names" by (simp add: object_prototype_names_def)
  from ordinary_name_without_driver_is_inert [OF d p o] d p o show ?thesis by blast
qed

subsection \<open>C5: errors of a sink\<close>

text \<open>
  C5 (amended). For a name that has both a sink and a proxy, when \<^verbatim>\<open>run()\<close>
  returns, every error the sink emitted while it was being subscribed has been handed
  to the diagnostic logger and then injected into the proxy by \<^verbatim>\<open>_e\<close>, in the order
  of arrival; every later error that is neither \<^verbatim>\<open>null\<close> nor \<^verbatim>\<open>undefined\<close> is
  treated the same way at once. The logger writes \<^verbatim>\<open>err.stack\<close> if it is truthy and
  \<^verbatim>\<open>err\<close> otherwise, to \<^verbatim>\<open>console.error\<close> if there is one, else to
  \<^verbatim>\<open>console.log\<close> if there is one, and nowhere if the console has neither.
\<close>

theorem sink_errors_logged_and_forwarded:
  assumes "distinct (keys sks)"
    and "map_of sks n = Some s"
    and "map_of px n = Some p"
    and "replicateMany c sks px = (tr, Inr st)"
  shows "(\<exists>pre post. tr = pre
            @ concat (map (\<lambda>err. diagnostic c err @ [ProxyError n err])
                        (error_values (on_subscribe s)))
            @ post)
       \<and> (\<forall>err. \<not> nullish err \<longrightarrow>
            sink_emits c px n (EmitError err) st = (diagnostic c err @ [ProxyError n err], Inr st))
       \<and> (\<forall>err. diagnostic c err =
            (if console_error_ok c then [ConsoleError (log_target err)]
             else if console_log_ok c then [ConsoleLog (log_target err)]
             else []))"
proof -
  from replicateMany_trace [OF assms(1), of c px] assms(4) have
    r: "tr = run_effects c sks px" "active st = sink_names sks px"
      "\<forall>m. map_of (replicators st) m =
          (if m \<in> set (sink_names sks px) then Some forwarding else None)"
    by simp_all
  from assms have mem: "n \<in> set (sink_names sks px)" by (simp add: replicated_name)
  from assms(3) have own: "js_lookup px n = Own p" by (simp add: js_lookup_def)
  from run_effects_split [OF mem, of c] obtain pre post where
    "run_effects c sks px = pre @ flush_effects c sks n @ post" by blast
  with r(1) assms(2) have "tr = (pre @ map (ProxyNext n) (next_values (on_subscribe s)))
      @ concat (map (\<lambda>err. diagnostic c err @ [ProxyError n err]) (error_values (on_subscribe s)))
      @ post"
    by (simp add: flush_effects_def flush_trace_def emissions_of_def)
  then have a: "\<exists>pre post. tr = pre
      @ concat (map (\<lambda>err. diagnostic c err @ [ProxyError n err]) (error_values (on_subscribe s)))
      @ post"
    by blast
  from r mem have "sink_emits c px n (EmitError err) st
      = (diagnostic c err @ [ProxyError n err], Inr st)" if "\<not> nullish err" for err
    using that by (intro sink_emits_forwarding(2) [OF _ _ own]) simp_all
  with a show ?thesis by (simp add: diagnostic_def)
qed

theorem sink_errors_logged_and_forwarded_witness:
  "distinct (keys interleaved_sinks)
   \<and> map_of interleaved_sinks ''A''
       = Some (Sink [EmitNext (Number 1), EmitError (Str ''boom''), EmitNext (Number 2),
                     EmitComplete])
   \<and> map_of early_proxies ''A'' = Some 0
   \<and> replicateMany (Some (Console True True)) interleaved_sinks early_proxies =
       ([Subscribe ''A'', ProxyNext ''A'' (Number 1), ProxyNext ''A'' (Number 2)]
        @ [ConsoleError (Str ''boom''), ProxyError ''A'' (Str ''boom'')] @ [],
        Inr \<lparr> sinkNames = [''A''], buffers = None, replicators = [(''A'', forwarding)],
              subscriptions = [''A''], active = [''A''] \<rparr>)
   \<and> sink_emits (Some (Console True True)) early_proxies ''A''
         (EmitError (Object [(''stack'', Str ''at main'', True, True)]))
         \<lparr> sinkNames = [''A''], buffers = None, replicators = [(''A'', forwarding)],
           subscriptions = [''A''], active = [''A''] \<rparr>
       = ([ConsoleError (Str ''at main''),
           ProxyError ''A'' (Object [(''stack'', Str ''at main'', True, True)])],
          Inr \<lparr> sinkNames = [''A''], buffers = None, replicators = [(''A'', forwarding)],
                subscriptions = [''A''], active = [''A''] \<rparr>)"
proof -
  have d: "distinct (keys interleaved_sinks)" by (simp add: interleaved_sinks_def keys_def)
  have s: "map_of interleaved_sinks ''A''
       = Some (Sink [EmitNext (Number 1), EmitError (Str ''boom''), EmitNext (Number 2),
                     EmitComplete])"
    by (simp add: interleaved_sinks_def)
  have p: "map_of early_proxies ''A'' = Some 0" by (simp add: early_proxies_def)
  from sink_errors_logged_and_forwarded [OF d s p interleaved_run] d s p interleaved_run
  show ?thesis
    by (simp add: nullish_def console_error_ok_def log_target_def)
qed

text \<open>
  C5 as stated fails where the console has neither \<^verbatim>\<open>error\<close> nor \<^verbatim>\<open>log\<close>, a
  case the logger provides for: the error reaches the proxy and no diagnostic is
  written, for a buffered error and for a later one.
\<close>

theorem error_not_logged_without_console_methods:
  "replicateMany (Some (Console False False)) failing_sinks early_proxies =
     ([Subscribe ''A'', ProxyError ''A'' (Str ''boom'')], Inr early_state)
   \<and> sink_emits (Some (Console False False)) early_proxies ''A'' (EmitError (Str ''late''))
       early_state
     = ([ProxyError ''A'' (Str ''late'')], Inr early_state)"
  by (simp add: engine_eval failing_sinks_def early_proxies_def early_state_def)

subsection \<open>C6: the order of disposal\<close>




subsection \<open>C7: one proxy and one source for each driver\<close>

text \<open>
  C7. The code at the registry \<^verbatim>\<open>{hasOwnProperty: () => undefined}\<close>. It has one own
  key, so \<^verbatim>\<open>setup\<close> accepts it. The guard \<^verbatim>\<open>drivers.hasOwnProperty(name)\<close> of
  lines 78 and 91 then calls this driver instead of the built-in, the driver returns
  \<^verbatim>\<open>undefined\<close>, and neither loop does anything for the key: no proxy is created and
  no source is stored, where C7 says one of each (\<open>shadow_setup\<close> is the whole
  \<^verbatim>\<open>setup\<close> at this registry).
\<close>

theorem shadowed_guard_skips_every_driver:
  "keys shadow_drivers = [''hasOwnProperty'']
   \<and> \<not> isObjectEmpty shadow_drivers
   \<and> makeSinkProxies 0 shadow_drivers = ([CallHasOwnProperty ''hasOwnProperty''], Inr [])
   \<and> callDrivers shadow_drivers [] = ([CallHasOwnProperty ''hasOwnProperty''], Inr [])"
  by (simp add: shadow_drivers_def isObjectEmpty_def keys_def makeSinkProxies_def
        callDrivers_def hasOwnProperty_def andThen_def emit_def ret_def)

text \<open>
  X2. On a registry that is a plain dictionary (\<open>plain_obj\<close>: its keys are distinct
  and neither \<^verbatim>\<open>hasOwnProperty\<close> nor \<^verbatim>\<open>__proto__\<close> is one of them) what C7 says
  holds: the proxies and the sources of the program \<^verbatim>\<open>setup\<close> returns have exactly
  the keys of the registry, in its order, and the proxies of distinct names are
  distinct streams, each created by this call (the streams numbered \<open>h\<close>, \<open>h + 1\<close>,
  ... in creation order, created before anything else happens).
\<close>

theorem one_proxy_and_source_per_driver:
  assumes "plain_obj ds"
    and "setup_cycle adapt h w main (ArgObject ds) = (tr, Inr (prog, w'))"
  shows "keys (sinkProxies prog) = keys ds
       \<and> keys (sources prog) = keys ds
       \<and> distinct (keys ds)
       \<and> map snd (sinkProxies prog) = [h ..< h + length ds]
       \<and> distinct (map snd (sinkProxies prog))
       \<and> take (length ds) tr = map CreateProxy (map snd (sinkProxies prog))"
proof -
  from assms(1) have dist: "distinct (keys ds)" by (simp add: plain_obj_def)
  from assms(1) have builtin: "map_of ds ''hasOwnProperty'' = None"
    by (rule plain_obj_builtin)
  from setup_returns [OF assms(2)] obtain mainf tr1 px tr2 srcs tr3 adapted sks where
    s: "makeSinkProxies h ds = (tr1, Inr px)" "callDrivers ds px = (tr2, Inr srcs)"
      "adaptSources adapt srcs = (tr3, Inr adapted)"
      "prog = \<lparr> sources = adapted, sinks = sks, sinkProxies = px \<rparr>"
      "tr = tr1 @ tr2 @ tr3 @ [CallMain]"
    by auto
  from s(1) makeSinkProxies_eq [OF builtin dist, of h] have
    px: "px = zip (keys ds) [h ..< h + length ds]" and
    tr1: "tr1 = map CreateProxy [h ..< h + length ds]"
    by simp_all
  have len: "length (keys ds) = length ds" by (simp add: keys_def)
  from px len have k: "keys px = keys ds" and v: "map snd px = [h ..< h + length ds]"
    by (simp_all add: keys_def)
  from callDrivers_keys [OF builtin dist s(2)] adaptSources_keys [OF s(3)]
  have "keys adapted = keys ds" by simp
  with k v s(4,5) tr1 dist show ?thesis by simp
qed

theorem one_proxy_and_source_per_driver_witness:
  "plain_obj cardinality_drivers
   \<and> (\<exists>tr prog w'.
        setup_cycle Returns 7 None (ArgFunction (\<lambda>s. Returns []) :: (main_fn, unit) arg)
          (ArgObject cardinality_drivers :: (unit, driver obj) arg) = (tr, Inr (prog, w'))
      \<and> sinkProxies prog = [(''DOM'', 7), (''HTTP'', 8)]
      \<and> keys (sources prog) = [''DOM'', ''HTTP''])"
proof -
  have p: "plain_obj cardinality_drivers"
    by (simp add: plain_obj_def cardinality_drivers_def keys_def)
  have e: "setup_cycle Returns 7 None (ArgFunction (\<lambda>s. Returns []) :: (main_fn, unit) arg)
          (ArgObject cardinality_drivers :: (unit, driver obj) arg) =
      ([CreateProxy 7, CreateProxy 8, CallDriver ''DOM'' (Own 7), CallDriver ''HTTP'' (Own 8),
        CallAdapt ''DOM'', CallMain],
       Inr (\<lparr> sources =
               [(''DOM'', Object [(''shamefullySendNext'', Function ''f'', True, True),
                                 (''_isCycleSource'', Str ''DOM'', True, True)]),
                (''HTTP'', Undefined)],
             sinks = [], sinkProxies = [(''DOM'', 7), (''HTTP'', 8)] \<rparr>, None))"
    by (simp add: setup_cycle_def cardinality_drivers_def isObjectEmpty_def keys_def
          makeSinkProxies_def callDrivers_def adaptSources_def js_lookup_def tag_source_def
          hasOwnProperty_def is_object_def write_shared_def
          has_method_def set_window_sinks_def andThen_def emit_def lift_def ret_def)
  from one_proxy_and_source_per_driver [OF p e] p e show ?thesis
    by (simp add: keys_def)
qed

subsection \<open>C8: the tag on a source\<close>

text \<open>
  C8 (amended). For every driver of a plain registry that returns a truthy value of
  type \<^verbatim>\<open>'object'\<close>, \<^verbatim>\<open>callDrivers\<close> assigns the driver's name to the property
  \<^verbatim>\<open>_isCycleSource\<close> of that value by a plain assignment (line 94). When
  \<^verbatim>\<open>callDrivers\<close> returns, and provided no other driver has returned this very
  object, the source stored under the driver's name is the value after that
  assignment: its property \<^verbatim>\<open>_isCycleSource\<close> holds the name, and where the value
  had no such property it is the value with one more property, which is enumerable and
  writable. Any other result (\<^verbatim>\<open>undefined\<close>, \<^verbatim>\<open>null\<close>, a primitive, a function)
  is stored as it is.
\<close>

theorem driver_result_tagging:
  assumes "plain_obj drivers"
    and "callDrivers drivers px = (tr, Inr srcs)"
    and "map_of drivers name = Some d"
    and "d (ProxyArg (js_lookup px name)) (Str name) = Returns (i, v)"
    and "\<forall>m d' j u. m \<noteq> name \<and> map_of drivers m = Some d'
           \<and> d' (ProxyArg (js_lookup px m)) (Str m) = Returns (j, u) \<and> is_object u
           \<longrightarrow> j \<noteq> i"
  shows "if truthy v \<and> typeof v = TyObject then
           (\<exists>v'. set_prop v ''_isCycleSource'' (Str name) = Inr v'
              \<and> map_of srcs name = Some v'
              \<and> get_prop v' ''_isCycleSource'' = Inr (Str name)
              \<and> (\<not> has_prop v ''_isCycleSource'' \<longrightarrow>
                   (\<exists>ps. v = Object ps
                      \<and> v' = Object (ps @ [(''_isCycleSource'', Str name, True, True)]))))
         else map_of srcs name = Some v"
proof -
  from assms(1) have plain: "map_of drivers ''hasOwnProperty'' = None" "distinct (keys drivers)"
    by (simp_all add: plain_obj_builtin plain_obj_def)
  from assms(3) have mem: "name \<in> set (keys drivers)" by (rule map_of_keys)
  from assms(2) obtain tr' out where
    out: "callDrivers_loop drivers px (keys drivers) [] = (tr', Inr out)"
      "srcs = map (\<lambda>(k, i, v). (k, v)) out"
    by (auto simp: callDrivers_def andThen_Inr_iff ret_eq_iff)
  from assms(5) have others: "\<forall>m d' j u. m \<in> set (keys drivers) \<and> m \<noteq> name
      \<and> map_of drivers m = Some d'
      \<and> d' (ProxyArg (js_lookup px m)) (Str m) = Returns (j, u) \<and> is_object u \<longrightarrow> j \<noteq> i"
    by blast
  from callDrivers_loop_entry [OF out(1) plain(1) subset_refl plain(2) mem assms(3,4) others]
  obtain v' where v': "tag_source name v = Inr v'" "map_of out name = Some (i, v')"
    by blast
  from v'(2) out(2) have stored: "map_of srcs name = Some v'"
    by (simp add: map_of_forget_identity)
  show ?thesis
  proof (cases "truthy v \<and> typeof v = TyObject")
    case False
    with v'(1) stored show ?thesis by (auto simp: tag_source_def)
  next
    case True
    with v'(1) have s: "set_prop v ''_isCycleSource'' (Str name) = Inr v'"
      by (simp add: tag_source_def)
    then have g: "get_prop v' ''_isCycleSource'' = Inr (Str name)" by (rule set_prop_get)
    from s set_prop_new have "\<not> has_prop v ''_isCycleSource'' \<longrightarrow>
        (\<exists>ps. v = Object ps \<and> v' = Object (ps @ [(''_isCycleSource'', Str name, True, True)]))"
      by blast
    with True s g stored show ?thesis by auto
  qed
qed

theorem driver_result_tagging_witness:
  "plain_obj tag_drivers
   \<and> callDrivers tag_drivers tag_proxies =
     ([CallDriver ''A'' (Own 0), CallDriver ''B'' (Own 1)],
      Inr [(''A'', Object [(''_isCycleSource'', Str ''A'', True, True)]), (''B'', Str ''src'')])
   \<and> map_of tag_drivers ''A'' = Some (\<lambda>p n. Returns (0, Object []))
   \<and> set_prop (Object []) ''_isCycleSource'' (Str ''A'')
       = Inr (Object [(''_isCycleSource'', Str ''A'', True, True)])
   \<and> get_prop (Object [(''_isCycleSource'', Str ''A'', True, True)]) ''_isCycleSource''
       = Inr (Str ''A'')
   \<and> \<not> has_prop (Object []) ''_isCycleSource''"
proof -
  have p: "plain_obj tag_drivers" by (simp add: plain_obj_def tag_drivers_def keys_def)
  have m: "map_of tag_drivers ''A'' = Some (\<lambda>p n. Returns (0, Object []))"
    by (simp add: tag_drivers_def)
  have r: "(\<lambda>p n. Returns (0, Object [])) (ProxyArg (js_lookup tag_proxies ''A'')) (Str ''A'')
      = Returns (0 :: nat, Object [])"
    by simp
  have o: "\<forall>m d' j u. m \<noteq> ''A'' \<and> map_of tag_drivers m = Some d'
           \<and> d' (ProxyArg (js_lookup tag_proxies m)) (Str m) = Returns (j, u) \<and> is_object u
           \<longrightarrow> j \<noteq> 0"
    by (auto simp: tag_drivers_def is_object_def split: if_splits)
  from driver_result_tagging [OF p tag_example m r o] p m tag_example show ?thesis
    by (simp add: has_prop_def)
qed

text \<open>
  C8 as stated fails: the tag on the object a driver returns is enumerable and writable,
  not hidden and read-only.
\<close>

theorem tag_is_enumerable_and_writable:
  "callDrivers tag_drivers tag_proxies =
     ([CallDriver ''A'' (Own 0), CallDriver ''B'' (Own 1)],
      Inr [(''A'', Object [(''_isCycleSource'', Str ''A'', True, True)]), (''B'', Str ''src'')])
   \<and> prop_enumerable (Object [(''_isCycleSource'', Str ''A'', True, True)]) ''_isCycleSource''
   \<and> prop_writable (Object [(''_isCycleSource'', Str ''A'', True, True)]) ''_isCycleSource''"
  by (simp add: tag_example prop_enumerable_def prop_writable_def)

text \<open>
  One object returned by two drivers is stored under both names and ends with the name
  of the driver called last, under both.
\<close>

lemma shared_object_takes_last_name:
  "callDrivers shared_drivers tag_proxies =
     ([CallDriver ''A'' (Own 0), CallDriver ''B'' (Own 1)],
      Inr [(''A'', Object [(''_isCycleSource'', Str ''B'', True, True)]),
           (''B'', Object [(''_isCycleSource'', Str ''B'', True, True)])])"
  by (simp add: callDrivers_def shared_drivers_def tag_proxies_def keys_def js_lookup_def
        hasOwnProperty_def tag_source_def is_object_def write_shared_def
        andThen_def emit_def lift_def ret_def)

subsection \<open>C9: values before errors\<close>



subsection \<open>C10: the global window\<close>

text \<open>
  C10. Where there is a \<^verbatim>\<open>window\<close>, a \<^verbatim>\<open>setup\<close> that returns a program has
  set \<^verbatim>\<open>window.Cyclejs.sinks\<close> to the sinks \<^verbatim>\<open>main\<close> returned, on the
  \<^verbatim>\<open>Cyclejs\<close> object that was there or on a new one; nothing else of the window
  changes, and the exported \<^verbatim>\<open>run\<close>, which goes on to replicate, leaves the window
  as \<^verbatim>\<open>setup\<close> made it.
\<close>

theorem setup_writes_window_sinks:
  assumes "setup_cycle adapt h (Some win) main drivers = (tr, Inr (prog, w'))"
  shows "(\<exists>mainf srcs. main = ArgFunction mainf \<and> mainf srcs = Returns (sinks prog))
       \<and> w' = Some (win\<lparr> Cyclejs := Some
                ((case Cyclejs win of
                    None \<Rightarrow> \<lparr> cj_sinks = None, cj_others = [] \<rparr>
                  | Some cj \<Rightarrow> cj)\<lparr> cj_sinks := Some (sinks prog) \<rparr>) \<rparr>)
       \<and> (\<forall>c tr2 prog2 w2 st.
             run adapt c h (Some win) main drivers = (tr2, Inr (prog2, w2, st)) \<longrightarrow> w2 = w')"
proof -
  from setup_returns [OF assms] obtain mainf adapted sks px where
    s: "main = ArgFunction mainf" "mainf adapted = Returns sks"
      "prog = \<lparr> sources = adapted, sinks = sks, sinkProxies = px \<rparr>"
      "w' = set_window_sinks (Some win) sks"
    by auto
  have "w2 = w'" if "run adapt c h (Some win) main drivers = (tr2, Inr (prog2, w2, st))"
    for c tr2 prog2 w2 st
    using that assms
    by (auto simp: run_def andThen_Inr_iff ret_eq_iff split: prod.splits)
  with s show ?thesis
    by (auto simp: set_window_sinks_def Let_def)
qed

theorem setup_writes_window_sinks_witness:
  "\<exists>tr prog.
     setup_cycle Returns 0 (Some window_example)
       (ArgFunction (\<lambda>s. Returns [(''DOM'', Sink [])]) :: (main_fn, unit) arg)
       (ArgObject cardinality_drivers :: (unit, driver obj) arg)
     = (tr, Inr (prog,
          Some \<lparr> Cyclejs = Some \<lparr> cj_sinks = Some [(''DOM'', Sink [])],
                                  cj_others = [(''version'', Number 1)] \<rparr>,
                 devtool = False \<rparr>))"
proof -
  have e: "setup_cycle Returns 0 (Some window_example)
       (ArgFunction (\<lambda>s. Returns [(''DOM'', Sink [])]) :: (main_fn, unit) arg)
       (ArgObject cardinality_drivers :: (unit, driver obj) arg) =
      ([CreateProxy 0, CreateProxy 1, CallDriver ''DOM'' (Own 0), CallDriver ''HTTP'' (Own 1),
        CallAdapt ''DOM'', CallMain],
       Inr (\<lparr> sources =
               [(''DOM'', Object [(''shamefullySendNext'', Function ''f'', True, True),
                                 (''_isCycleSource'', Str ''DOM'', True, True)]),
                (''HTTP'', Undefined)],
             sinks = [(''DOM'', Sink [])], sinkProxies = [(''DOM'', 0), (''HTTP'', 1)] \<rparr>,
            set_window_sinks (Some window_example) [(''DOM'', Sink [])]))"
    by (simp add: setup_cycle_def cardinality_drivers_def isObjectEmpty_def keys_def
          makeSinkProxies_def callDrivers_def adaptSources_def js_lookup_def tag_source_def
          hasOwnProperty_def is_object_def write_shared_def
          has_method_def andThen_def emit_def lift_def ret_def)
  from setup_writes_window_sinks [OF e] e show ?thesis
    by (simp add: window_example_def)
qed

end
